theory Spec2Isabelle
  imports Complex_Main "HOL-Library.Sublist"
begin

text \<open>
  A shallow embedding of the PDF text-extraction pipeline: URL normalisation, the native
  (PyMuPDF) extractor, the OCR extractors, the language filter, the extraction
  orchestrator, the per-document processing pass and the train/dev split. Calls into libraries outside the
  repository (PyMuPDF, pdf2image, Tesseract, langdetect, the Unicode tables, the HTTP
  download) are inputs of the model: what they return, or that they raise, is data.
\<close>

section \<open>Python strings\<close>

text \<open>
  A Python \<open>str\<close> is a sequence of Unicode code points; it is modelled as a list of
  natural numbers, so that \<open>len\<close> is \<open>length\<close> and Devanagari text is as representable
  as Latin text. \<open>py\<close> turns an ASCII literal into such a string.
\<close>

type_synonym pystr = "nat list"

definition py :: "string \<Rightarrow> pystr" where
  "py s = map of_char s"

text \<open>\<open>sub in s\<close>: the substring test.\<close>

fun contains :: "'a list \<Rightarrow> 'a list \<Rightarrow> bool" where
  "contains sub [] = (sub = [])"
| "contains sub (c # cs) = (prefix sub (c # cs) \<or> contains sub cs)"

text \<open>
  \<open>s.split(sep)\<close> scans from the left; at each position where \<open>sep\<close> starts it closes the
  current piece and skips the separator, so occurrences are taken leftmost and without
  overlap. \<open>cur\<close> is the piece being collected. Python raises \<open>ValueError\<close> for an empty
  separator; every separator used in the program is a non-empty literal, and with an empty
  one this scan never matches.
\<close>

function split_from :: "'a list \<Rightarrow> 'a list \<Rightarrow> 'a list \<Rightarrow> 'a list list" where
  "split_from sep cur [] = [cur]"
| "split_from sep cur (c # cs) =
     (if sep \<noteq> [] \<and> prefix sep (c # cs)
      then cur # split_from sep [] (drop (length sep) (c # cs))
      else split_from sep (cur @ [c]) cs)"
  by pat_completeness auto
termination
  by (relation "measure (\<lambda>(sep, cur, s). length s)") auto

definition split_str :: "'a list \<Rightarrow> 'a list \<Rightarrow> 'a list list" where
  "split_str sep s = split_from sep [] s"

text \<open>\<open>sep.join(xs)\<close>.\<close>

fun join :: "'a list \<Rightarrow> 'a list list \<Rightarrow> 'a list" where
  "join sep [] = []"
| "join sep [x] = x"
| "join sep (x # y # ys) = x @ sep @ join sep (y # ys)"

text \<open>
  \<open>str.strip()\<close> removes leading and trailing whitespace, and \<open>str.isspace\<close> and the
  regular-expression class for whitespace use the same set of code points: U+0009 to
  U+000D, U+001C to U+0020, U+0085, U+00A0, U+1680, U+2000 to U+200A, U+2028, U+2029,
  U+202F, U+205F and U+3000.
\<close>

definition is_space :: "nat \<Rightarrow> bool" where
  "is_space c \<longleftrightarrow>
     (9 \<le> c \<and> c \<le> 13) \<or> (28 \<le> c \<and> c \<le> 32) \<or> c = 133 \<or> c = 160 \<or> c = 5760 \<or>
     (8192 \<le> c \<and> c \<le> 8202) \<or> c = 8232 \<or> c = 8233 \<or> c = 8239 \<or> c = 8287 \<or> c = 12288"

definition strip :: "pystr \<Rightarrow> pystr" where
  "strip s = rev (dropWhile is_space (rev (dropWhile is_space s)))"

definition newline :: pystr where
  "newline = [10]"

definition tab :: pystr where
  "tab = [9]"

section \<open>URL normalisation (\<open>extract.py\<close>, \<open>en_extract.py\<close>, \<open>en_hin_extract.py\<close>)\<close>

text \<open>
  \<^verbatim>\<open>if "doWeb" in url:
    parts = url.split("doWeb")
    if len(parts) > 1:
        url = parts[0] + "do?Web" + parts[1]
return url\<close>
  The three copies of \<open>fix_url\<close> are the same text.
\<close>

definition doWeb :: pystr where
  "doWeb = py ''doWeb''"

definition fix_url :: "pystr \<Rightarrow> pystr" where
  "fix_url url =
     (if contains doWeb url
      then (let parts = split_str doWeb url
            in if length parts > 1 then parts ! 0 @ py ''do?Web'' @ parts ! 1 else url)
      else url)"

section \<open>PDF documents as the libraries present them\<close>

text \<open>
  A call into a library either returns a value or raises; the program wraps such calls in
  \<open>try ... except Exception\<close>, so which of the two happens is part of the input.
\<close>

datatype 'a outcome = Raises | Returns 'a

text \<open>
  \<open>extract_rows\<close> is \<open>table.extract()\<close>: the rows of a table, top to bottom, each a list of
  cells; a cell
  is a string or \<open>None\<close>. \<open>get_text\<close> is \<open>page.get_text("text")\<close>, the text layer of the
  page as PyMuPDF returns it, and \<open>prose_text\<close> is the text of the page that lies outside
  its tables; the code never reads the latter. A rasterised page is represented by what
  Tesseract (\<open>image_to_string\<close>) does on it: the recognised text, or an exception.
\<close>

type_synonym row = "pystr option list"

record table =
  extract_rows :: "row list outcome"

type_synonym image = "pystr outcome"

record page =
  find_tables :: "table list outcome"
  get_text :: "pystr outcome"
  prose_text :: pystr
  image :: image

text \<open>
  \<open>is_file\<close> is \<open>os.path.isfile(file_path)\<close>, \<open>opens\<close> says that \<open>fitz.open\<close> succeeds,
  \<open>pages\<close> are \<open>doc[0]\<close> to \<open>doc[page_count - 1]\<close>, and \<open>raster_raises\<close> says for which
  page ranges (\<open>None\<close>: the whole document) pdf2image's \<open>convert_from_path\<close> raises. When
  it does not raise it returns the images of the pages \<open>first_page\<close> to \<open>last_page\<close>
  (numbered from 1, both included) in page order.
\<close>

record pdf =
  is_file :: bool
  opens :: bool
  pages :: "page list"
  raster_raises :: "(int \<times> int) option \<Rightarrow> bool"

definition page_range :: "'a list \<Rightarrow> int \<Rightarrow> int \<Rightarrow> 'a list" where
  "page_range ps first_page last_page =
     take (nat (last_page - first_page + 1)) (drop (nat (first_page - 1)) ps)"

definition convert_from_path :: "pdf \<Rightarrow> (int \<times> int) option \<Rightarrow> image list outcome" where
  "convert_from_path d page_span =
     (if \<not> is_file d \<or> raster_raises d page_span then Raises
      else Returns (case page_span of
                      None \<Rightarrow> map image (pages d)
                    | Some (first_page, last_page) \<Rightarrow>
                        map image (page_range (pages d) first_page last_page)))"

section \<open>Native extraction (\<open>parsingText2.py\<close>)\<close>

text \<open>
  \<open>extract_tables_from_page\<close>: the whole body is one \<open>try\<close> block that appends to
  \<open>results\<close>; an exception in \<open>find_tables\<close> or in a later \<open>table.extract()\<close> leaves the
  block, and \<open>results\<close> is returned as it stands. A row becomes
  \<open>"\t".join([(cell if cell else "").strip() for cell in row])\<close>.
\<close>

definition row_text :: "row \<Rightarrow> pystr" where
  "row_text r = join tab (map (\<lambda>cell. strip (case cell of None \<Rightarrow> [] | Some s \<Rightarrow> s)) r)"

fun tables_loop :: "table list \<Rightarrow> pystr list \<Rightarrow> pystr list" where
  "tables_loop [] results = results"
| "tables_loop (t # ts) results =
     (case extract_rows t of
        Raises \<Rightarrow> results
      | Returns rows \<Rightarrow> tables_loop ts (results @ map row_text rows))"

definition extract_tables_from_page :: "page \<Rightarrow> pystr list" where
  "extract_tables_from_page p =
     (case find_tables p of Raises \<Rightarrow> [] | Returns ts \<Rightarrow> tables_loop ts [])"

definition extract_text_no_tables :: "page \<Rightarrow> pystr" where
  "extract_text_no_tables p = (case get_text p of Raises \<Rightarrow> [] | Returns t \<Rightarrow> t)"

text \<open>
  \<open>extract_pdf_with_pymupdf\<close>: the loop over the pages extends \<open>all_text_chunks\<close> by the
  page's table lines and, when the page text is not blank, by the stripped page text.
  Loading a page of an opened document (\<open>doc[page_index]\<close>) and closing the document are
  taken to succeed.
\<close>

fun pymupdf_loop :: "page list \<Rightarrow> pystr list \<Rightarrow> pystr list" where
  "pymupdf_loop [] all_text_chunks = all_text_chunks"
| "pymupdf_loop (p # ps) all_text_chunks =
     (let table_lines = extract_tables_from_page p;
          chunks1 = (if table_lines \<noteq> [] then all_text_chunks @ table_lines
                     else all_text_chunks);
          normal_text = extract_text_no_tables p;
          chunks2 = (if strip normal_text \<noteq> [] then chunks1 @ [strip normal_text]
                     else chunks1)
      in pymupdf_loop ps chunks2)"

definition extract_pdf_with_pymupdf :: "pdf \<Rightarrow> pystr" where
  "extract_pdf_with_pymupdf d =
     (if \<not> is_file d then []
      else if \<not> opens d then []
      else join newline (pymupdf_loop (pages d) []))"

text \<open>
  The same output, described page by page. The rows the detector reports for a page are
  the rows of its tables in order, up to the first table whose extraction raises, and none
  when detection itself raises; each row gives one line of tab-separated, whitespace-trimmed
  cells. A text gives a block: the text with surrounding whitespace removed, and nothing
  at all when that is empty.
\<close>

definition rows_of :: "table \<Rightarrow> row list" where
  "rows_of t = (case extract_rows t of Raises \<Rightarrow> [] | Returns rows \<Rightarrow> rows)"

definition reported_rows :: "page \<Rightarrow> row list" where
  "reported_rows p =
     (case find_tables p of
        Raises \<Rightarrow> []
      | Returns ts \<Rightarrow> concat (map rows_of (takeWhile (\<lambda>t. extract_rows t \<noteq> Raises) ts)))"

definition page_table_lines :: "page \<Rightarrow> pystr list" where
  "page_table_lines p = map row_text (reported_rows p)"


definition page_prose :: "page \<Rightarrow> pystr list" where
  "page_prose p =
     (if strip (extract_text_no_tables p) = [] then [] else [strip (extract_text_no_tables p)])"

definition page_pieces :: "page \<Rightarrow> pystr list" where
  "page_pieces p = page_table_lines p @ page_prose p"







section \<open>OCR extraction\<close>

datatype error = ValueError

text \<open>
  \<open>range(start, stop, step)\<close>: \<open>ValueError\<close> for a zero step, otherwise the values
  \<open>start, start + step, ...\<close> before \<open>stop\<close>.
\<close>

function range_up :: "int \<Rightarrow> int \<Rightarrow> int \<Rightarrow> int list" where
  "range_up i stop step = (if 0 < step \<and> i < stop then i # range_up (i + step) stop step else [])"
  by pat_completeness auto
termination
  by (relation "measure (\<lambda>(i, stop, step). nat (stop - i))") auto

declare range_up.simps [simp del]

function range_down :: "int \<Rightarrow> int \<Rightarrow> int \<Rightarrow> int list" where
  "range_down i stop step =
     (if step < 0 \<and> stop < i then i # range_down (i + step) stop step else [])"
  by pat_completeness auto
termination
  by (relation "measure (\<lambda>(i, stop, step). nat (i - stop))") auto

declare range_down.simps [simp del]

definition py_range :: "int \<Rightarrow> int \<Rightarrow> int \<Rightarrow> error + int list" where
  "py_range start stop step =
     (if step = 0 then Inl ValueError
      else if 0 < step then Inr (range_up start stop step)
      else Inr (range_down start stop step))"

subsection \<open>\<open>extract_pdf_with_ocr\<close> (\<open>parsingText2.py\<close>)\<close>

text \<open>
  \<open>convert_pdf_to_images\<close> turns an exception of \<open>convert_from_path\<close> into \<open>None\<close>;
  \<open>ocr_image\<close> turns an exception of \<open>image_to_string\<close> into the empty string.
\<close>

definition convert_pdf_to_images :: "pdf \<Rightarrow> int \<Rightarrow> int \<Rightarrow> image list option" where
  "convert_pdf_to_images d first_page last_page =
     (case convert_from_path d (Some (first_page, last_page)) of
        Raises \<Rightarrow> None
      | Returns images \<Rightarrow> Some images)"

definition ocr_image :: "image \<Rightarrow> pystr" where
  "ocr_image img = (case img of Raises \<Rightarrow> [] | Returns text \<Rightarrow> (if text \<noteq> [] then text else []))"

text \<open>
  The chunk bounds computed by the loop header and its first line:
  \<open>for chunk_start in range(1, total_pages + 1, max_pages_per_chunk)\<close> and
  \<open>chunk_end = min(chunk_start + max_pages_per_chunk - 1, total_pages)\<close>.
\<close>

definition chunk_end :: "int \<Rightarrow> int \<Rightarrow> int \<Rightarrow> int" where
  "chunk_end chunk_start max_pages_per_chunk total_pages =
     min (chunk_start + max_pages_per_chunk - 1) total_pages"

definition chunk_bounds :: "int \<Rightarrow> int \<Rightarrow> error + (int \<times> int) list" where
  "chunk_bounds total_pages max_pages_per_chunk =
     (case py_range 1 (total_pages + 1) max_pages_per_chunk of
        Inl e \<Rightarrow> Inl e
      | Inr starts \<Rightarrow>
          Inr (map (\<lambda>s. (s, chunk_end s max_pages_per_chunk total_pages)) starts))"

text \<open>
  The loop body: a chunk whose rasterisation fails or is empty is skipped
  (\<open>if not images: continue\<close>); otherwise \<open>list(executor.map(ocr_image, images))\<close>, which
  yields the results in the order of \<open>images\<close> whatever the order in which the workers
  finish, is appended to \<open>all_text\<close>.
\<close>

fun ocr_chunks :: "pdf \<Rightarrow> (int \<times> int) list \<Rightarrow> pystr list \<Rightarrow> pystr list" where
  "ocr_chunks d [] all_text = all_text"
| "ocr_chunks d ((first_page, last_page) # rest) all_text =
     (case convert_pdf_to_images d first_page last_page of
        None \<Rightarrow> ocr_chunks d rest all_text
      | Some images \<Rightarrow>
          if images = [] then ocr_chunks d rest all_text
          else ocr_chunks d rest (all_text @ map ocr_image images))"

definition extract_pdf_with_ocr :: "pdf \<Rightarrow> int \<Rightarrow> error + pystr" where
  "extract_pdf_with_ocr d max_pages_per_chunk =
     (if \<not> is_file d then Inr []
      else if \<not> opens d then Inr []
      else case chunk_bounds (int (length (pages d))) max_pages_per_chunk of
             Inl e \<Rightarrow> Inl e
           | Inr chunks \<Rightarrow> Inr (join newline (ocr_chunks d chunks [])))"

subsection \<open>\<open>pdf_to_text\<close> (\<open>OCR_parsing_hin.py\<close>)\<close>

text \<open>
  \<open>process_image\<close> returns the recognised text, or the empty string when saving the image
  or Tesseract raises. \<open>pdf_to_text\<close> submits one \<open>process_image\<close> per page and then
  iterates \<open>as_completed(futures)\<close>, which yields the futures in the order in which they
  finish: \<open>completion\<close> lists the page indices in that order. A text that is not blank is
  appended to \<open>extracted_text\<close>. Any exception (a failing \<open>convert_from_path\<close>) makes the
  function return the empty string.
\<close>

definition process_image :: "image \<Rightarrow> pystr" where
  "process_image img = (case img of Raises \<Rightarrow> [] | Returns text \<Rightarrow> text)"

fun collect_completed :: "image list \<Rightarrow> nat list \<Rightarrow> pystr list \<Rightarrow> pystr list" where
  "collect_completed imgs [] extracted_text = extracted_text"
| "collect_completed imgs (i # rest) extracted_text =
     (if i < length imgs
      then (let text = process_image (imgs ! i)
            in collect_completed imgs rest
                 (if text \<noteq> [] \<and> strip text \<noteq> [] then extracted_text @ [text]
                  else extracted_text))
      else collect_completed imgs rest extracted_text)"

definition pdf_to_text :: "pdf \<Rightarrow> nat list \<Rightarrow> pystr" where
  "pdf_to_text d completion =
     (case convert_from_path d None of
        Raises \<Rightarrow> []
      | Returns imgs \<Rightarrow> join newline (collect_completed imgs completion []))"

text \<open>The text recognised on a page image, empty when Tesseract raises on it.\<close>

definition recognised :: "image \<Rightarrow> pystr" where
  "recognised img = (case img of Raises \<Rightarrow> [] | Returns text \<Rightarrow> text)"

text \<open>What one chunk adds to \<open>all_text\<close>.\<close>

definition chunk_text :: "pdf \<Rightarrow> int \<times> int \<Rightarrow> pystr list" where
  "chunk_text d c =
     (case convert_pdf_to_images d (fst c) (snd c) of
        None \<Rightarrow> []
      | Some images \<Rightarrow> map ocr_image images)"

text \<open>A two-page document whose pages are recognised as \<open>A\<close> and \<open>B\<close>.\<close>

definition two_page_pdf :: pdf where
  "two_page_pdf =
     \<lparr>is_file = True, opens = True,
      pages = [\<lparr>find_tables = Returns [], get_text = Returns [], prose_text = [],
                 image = Returns (py ''A'')\<rparr>,
               \<lparr>find_tables = Returns [], get_text = Returns [], prose_text = [],
                 image = Returns (py ''B'')\<rparr>],
      raster_raises = (\<lambda>r. False)\<rparr>"

text \<open>
  A three-page document whose second page makes table detection, text extraction and
  Tesseract raise.
\<close>

definition faulty_page :: page where
  "faulty_page = \<lparr>find_tables = Raises, get_text = Raises, prose_text = [], image = Raises\<rparr>"

definition faulty_pdf :: pdf where
  "faulty_pdf =
     \<lparr>is_file = True, opens = True,
      pages = [\<lparr>find_tables = Returns [], get_text = Returns (py ''A''),
                 prose_text = py ''A'', image = Returns (py ''A'')\<rparr>,
               faulty_page,
               \<lparr>find_tables = Returns [], get_text = Returns (py ''C''),
                 prose_text = py ''C'', image = Returns (py ''C'')\<rparr>],
      raster_raises = (\<lambda>r. False)\<rparr>"

section \<open>Language filter (\<open>parsingText2.py\<close>)\<close>

text \<open>
  What the filter takes from outside the repository. \<open>str.upper()\<close> maps the ASCII letters
  \<open>a\<close> to \<open>z\<close> to \<open>A\<close> to \<open>Z\<close> and leaves the other ASCII characters alone; what it does to
  any other code point (possibly several code points) is \<open>upper_full\<close>. The digit class of
  \<open>re\<close> holds the ASCII digits and the other Unicode decimal digits, \<open>is_decimal\<close>.
  \<open>detect\<close> is langdetect's function: a language code, or \<open>None\<close> when it raises
  \<open>LangDetectException\<close>.
\<close>

record libs =
  upper_full :: "nat \<Rightarrow> pystr"
  is_decimal :: "nat \<Rightarrow> bool"
  detect :: "pystr \<Rightarrow> pystr option"

definition upper :: "libs \<Rightarrow> pystr \<Rightarrow> pystr" where
  "upper L s =
     concat (map (\<lambda>c. if 97 \<le> c \<and> c \<le> 122 then [c - 32]
                       else if c < 128 then [c]
                       else upper_full L c) s)"

definition is_digit :: "libs \<Rightarrow> nat \<Rightarrow> bool" where
  "is_digit L c \<longleftrightarrow> (48 \<le> c \<and> c \<le> 57) \<or> (128 \<le> c \<and> is_decimal L c)"

text \<open>
  \<open>re.match\<close> of the pattern for a bracketed page number: optional whitespace, one or more
  digits, a closing square bracket, optional whitespace, end of the string.
\<close>

definition page_number_line :: "libs \<Rightarrow> pystr \<Rightarrow> bool" where
  "page_number_line L s =
     (let s1 = dropWhile is_space s;
          digits = takeWhile (is_digit L) s1;
          rest = dropWhile (is_digit L) s1
      in digits \<noteq> [] \<and>
         (case rest of [] \<Rightarrow> False | c # after \<Rightarrow> c = 93 \<and> list_all is_space after))"

text \<open>
  \<open>remove_unwanted_headers\<close>: the loop over \<open>text.split("\n")\<close> drops a line when its
  upper-cased, stripped form contains \<open>GAZETTE OF INDIA\<close> or \<open>EXTRAORDINARY\<close> or is a
  bracketed page number, and the lines kept are joined by newlines again.
\<close>

fun cleaned_lines :: "libs \<Rightarrow> pystr list \<Rightarrow> pystr list" where
  "cleaned_lines L [] = []"
| "cleaned_lines L (line # rest) =
     (let line_upper = strip (upper L line)
      in if contains (py ''GAZETTE OF INDIA'') line_upper then cleaned_lines L rest
         else if contains (py ''EXTRAORDINARY'') line_upper then cleaned_lines L rest
         else if page_number_line L line_upper then cleaned_lines L rest
         else line # cleaned_lines L rest)"

definition remove_unwanted_headers :: "libs \<Rightarrow> pystr \<Rightarrow> pystr" where
  "remove_unwanted_headers L text = join newline (cleaned_lines L (split_str newline text))"

definition is_english_or_hindi_sentence :: "libs \<Rightarrow> pystr \<Rightarrow> bool" where
  "is_english_or_hindi_sentence L sentence =
     (case detect L sentence of
        None \<Rightarrow> False
      | Some lang \<Rightarrow> lang = py ''en'' \<or> lang = py ''hi'')"

definition split_into_sentences :: "pystr \<Rightarrow> pystr list" where
  "split_into_sentences text = split_str (py ''.'') text"

text \<open>
  The first \<open>re.sub\<close> deletes every character that is not an ASCII letter or digit,
  whitespace, one of \<open>. , ; : - ( ) [ ] ' " / &\<close> or the bullet U+2022. The second
  replaces every maximal run of whitespace by one space.
\<close>

definition allowed_char :: "nat \<Rightarrow> bool" where
  "allowed_char c \<longleftrightarrow>
     (97 \<le> c \<and> c \<le> 122) \<or> (65 \<le> c \<and> c \<le> 90) \<or> (48 \<le> c \<and> c \<le> 57) \<or> is_space c \<or>
     c = 46 \<or> c = 44 \<or> c = 59 \<or> c = 58 \<or> c = 45 \<or> c = 40 \<or> c = 41 \<or> c = 91 \<or> c = 93 \<or>
     c = 39 \<or> c = 34 \<or> c = 47 \<or> c = 38 \<or> c = 8226"

function collapse_spaces :: "pystr \<Rightarrow> pystr" where
  "collapse_spaces [] = []"
| "collapse_spaces (c # cs) =
     (if is_space c then 32 # collapse_spaces (dropWhile is_space cs)
      else c # collapse_spaces cs)"
  by pat_completeness auto
termination
  by (relation "measure length") (auto simp: length_dropWhile_le less_Suc_eq_le)

text \<open>\<open>clean_and_keep_only_english\<close>: the loop over the sentences, then the final join.\<close>

fun valid_sentences :: "libs \<Rightarrow> pystr list \<Rightarrow> pystr list" where
  "valid_sentences L [] = []"
| "valid_sentences L (s # rest) =
     (let s1 = strip s
      in if s1 = [] then valid_sentences L rest
         else if \<not> is_english_or_hindi_sentence L s1 then valid_sentences L rest
         else (let s2 = filter allowed_char s1;
                   s3 = strip (collapse_spaces s2)
               in if length s3 > 0 then s3 # valid_sentences L rest
                  else valid_sentences L rest))"

definition clean_and_keep_only_english :: "libs \<Rightarrow> pystr \<Rightarrow> int \<Rightarrow> pystr" where
  "clean_and_keep_only_english L text min_length =
     (let text1 = remove_unwanted_headers L text;
          sentences = split_into_sentences text1;
          final_text = strip (join (py ''. '') (valid_sentences L sentences))
      in if int (length final_text) < min_length then [] else final_text)"

section \<open>Extraction orchestrator (\<open>parsingText2.py\<close>)\<close>

text \<open>
  \<open>extract_text_from_pdf\<close> returns the text or \<open>None\<close>; the model also returns which
  extractors were run, in order. \<open>ocr_fallback\<close> is the part of the function from the log
  line \<open>Falling back to OCR\<close> on.
\<close>

datatype extractor = Native | Ocr

definition ocr_fallback :: "libs \<Rightarrow> pdf \<Rightarrow> (error + pystr option) \<times> extractor list" where
  "ocr_fallback L d =
     (case extract_pdf_with_ocr d 50 of
        Inl e \<Rightarrow> (Inl e, [Native, Ocr])
      | Inr ocr_text \<Rightarrow>
          if strip ocr_text = [] then (Inr None, [Native, Ocr])
          else (let cleaned_ocr = clean_and_keep_only_english L ocr_text 50
                in (Inr (if cleaned_ocr \<noteq> [] then Some cleaned_ocr else None),
                    [Native, Ocr])))"

definition extract_text_from_pdf ::
  "libs \<Rightarrow> pdf \<Rightarrow> (error + pystr option) \<times> extractor list" where
  "extract_text_from_pdf L d =
     (if \<not> is_file d then (Inr None, [])
      else
        let native_text = extract_pdf_with_pymupdf d
        in if strip native_text \<noteq> []
           then (let cleaned = clean_and_keep_only_english L native_text 50
                 in if cleaned \<noteq> [] then (Inr (Some cleaned), [Native])
                    else ocr_fallback L d)
           else ocr_fallback L d)"

text \<open>
  A text in which whitespace has been collapsed: every whitespace character is a space
  and no two of them are adjacent.
\<close>

fun collapsed :: "pystr \<Rightarrow> bool" where
  "collapsed [] = True"
| "collapsed (c # cs) =
     ((is_space c \<longrightarrow> c = 32 \<and> (cs = [] \<or> \<not> is_space (hd cs))) \<and> collapsed cs)"

text \<open>
  A unit as the filter emits it: not empty, made of allowed characters other than the
  period, whitespace collapsed, no whitespace at either end.
\<close>

definition clean_unit :: "pystr \<Rightarrow> bool" where
  "clean_unit u \<longleftrightarrow>
     u \<noteq> [] \<and> list_all (\<lambda>c. allowed_char c \<and> c \<noteq> 46) u \<and> collapsed u \<and>
     \<not> is_space (hd u) \<and> \<not> is_space (last u)"

text \<open>
  Example inputs. \<open>english_libs\<close> stands for a run in which langdetect reports English for
  every sentence it is given; outside ASCII it leaves \<open>upper\<close> and the digit class alone.
  \<open>gazette_text\<close> is a two-line English sentence whose line break falls inside the words
  \<open>Gazette of India\<close>. \<open>judgment_pdf\<close> is a one-page document with an English text layer.
\<close>

definition english_libs :: libs where
  "english_libs =
     \<lparr>upper_full = (\<lambda>c. [c]), is_decimal = (\<lambda>c. False), detect = (\<lambda>s. Some (py ''en''))\<rparr>"

definition gazette_text :: pystr where
  "gazette_text =
     py ''Published in the Gazette'' @ newline @ py ''of India by the Government of the State''"

definition judgment_text :: pystr where
  "judgment_text = py ''The court held that the appeal is dismissed with costs''"

definition judgment_pdf :: pdf where
  "judgment_pdf =
     \<lparr>is_file = True, opens = True,
      pages = [\<lparr>find_tables = Returns [], get_text = Returns (judgment_text @ newline),
                prose_text = judgment_text @ newline, image = Raises\<rparr>],
      raster_raises = (\<lambda>r. True)\<rparr>"

section \<open>Processing pass over the document store (\<open>extract.py\<close>, \<open>en_hin_extract.py\<close>)\<close>

text \<open>
  A stored document is a mapping from field names to values; the fields the pipeline reads
  and writes hold strings. The field names are the constants of both scripts.
\<close>

type_synonym document = "pystr \<rightharpoonup> pystr"

definition ENGLISH_URL_FIELD :: pystr where
  "ENGLISH_URL_FIELD = py ''Original English Version''"

definition HINDI_URL_FIELD :: pystr where
  "HINDI_URL_FIELD = py ''Translated Hindi Version''"

definition ENGLISH_CONTENT_FIELD :: pystr where
  "ENGLISH_CONTENT_FIELD = py ''Original_Content''"

definition HINDI_CONTENT_FIELD :: pystr where
  "HINDI_CONTENT_FIELD = py ''Translated_Content''"

text \<open>\<open>doc.get(field, "")\<close>, and the truth value of \<open>doc.get(field)\<close>.\<close>

definition get_or_empty :: "document \<Rightarrow> pystr \<Rightarrow> pystr" where
  "get_or_empty doc field = (case doc field of None \<Rightarrow> [] | Some v \<Rightarrow> v)"

definition truthy :: "pystr option \<Rightarrow> bool" where
  "truthy v = (case v of None \<Rightarrow> False | Some s \<Rightarrow> s \<noteq> [])"

text \<open>
  Downloading a PDF and extracting its text is the outside world: \<open>remote lang url\<close> is the
  content obtained for the normalised URL, the empty string when the download or the
  extraction fails (both scripts catch every exception there and keep the empty content).
  Each extraction performed is recorded with its language and the URL of the document.
\<close>

datatype language = English | Hindi

type_synonym remote = "language \<Rightarrow> pystr \<Rightarrow> pystr"

type_synonym extraction_log = "(language \<times> pystr) list"

subsection \<open>\<open>extract.py\<close>\<close>

text \<open>
  \<open>process_document\<close>: a language is extracted when its content is empty and its URL is
  present; at the end both content fields of the local \<open>doc\<close> are assigned.
\<close>

definition process_document :: "remote \<Rightarrow> document \<Rightarrow> document \<times> extraction_log" where
  "process_document remote doc =
     (let english_url = doc ENGLISH_URL_FIELD;
          hindi_url = doc HINDI_URL_FIELD;
          english_content = get_or_empty doc ENGLISH_CONTENT_FIELD;
          hindi_content = get_or_empty doc HINDI_CONTENT_FIELD;
          (english_content1, log1) =
             (if english_content = [] \<and> truthy english_url
              then (remote English (fix_url (the english_url)), [(English, the english_url)])
              else (english_content, []));
          (hindi_content1, log2) =
             (if hindi_content = [] \<and> truthy hindi_url
              then (remote Hindi (fix_url (the hindi_url)), [(Hindi, the hindi_url)])
              else (hindi_content, []))
      in (doc(ENGLISH_CONTENT_FIELD \<mapsto> english_content1, HINDI_CONTENT_FIELD \<mapsto> hindi_content1),
          log1 @ log2))"

text \<open>
  The body of the loop in \<open>main\<close> for the document stored under \<open>i\<close>: skip it when both
  contents exist, otherwise process it and \<open>$set\<close> the non-empty content fields with
  \<open>update_one\<close>.
\<close>

definition main_step ::
  "remote \<Rightarrow> ('i \<rightharpoonup> document) \<Rightarrow> 'i \<Rightarrow> ('i \<rightharpoonup> document) \<times> extraction_log" where
  "main_step remote collection i =
     (case collection i of
        None \<Rightarrow> (collection, [])
      | Some doc \<Rightarrow>
          let has_eng = get_or_empty doc ENGLISH_CONTENT_FIELD \<noteq> [];
              has_hin = get_or_empty doc HINDI_CONTENT_FIELD \<noteq> []
          in if has_eng \<and> has_hin then (collection, [])
             else
               let (updated_doc, log) = process_document remote doc;
                   eng_content = get_or_empty updated_doc ENGLISH_CONTENT_FIELD;
                   hin_content = get_or_empty updated_doc HINDI_CONTENT_FIELD;
                   update_fields =
                     (if eng_content \<noteq> [] then [(ENGLISH_CONTENT_FIELD, eng_content)] else [])
                     @ (if hin_content \<noteq> [] then [(HINDI_CONTENT_FIELD, hin_content)] else [])
               in if update_fields \<noteq> []
                  then (collection(i \<mapsto> doc ++ map_of update_fields), log)
                  else (collection, log))"

subsection \<open>\<open>en_hin_extract.py\<close>\<close>

text \<open>
  \<open>process_document\<close> of the two-language script: nothing is done unless both URLs are
  present; a language is extracted when its content field is missing or empty, and the
  field is assigned only when something was extracted.
\<close>

definition process_document_en_hin ::
  "remote \<Rightarrow> document \<Rightarrow> document \<times> extraction_log" where
  "process_document_en_hin remote doc =
     (let eng_url = doc ENGLISH_URL_FIELD;
          hin_url = doc HINDI_URL_FIELD
      in if \<not> truthy eng_url \<or> \<not> truthy hin_url then (doc, [])
         else
           let eng_content_exists = truthy (doc ENGLISH_CONTENT_FIELD);
               hin_content_exists = truthy (doc HINDI_CONTENT_FIELD)
           in if eng_content_exists \<and> hin_content_exists then (doc, [])
              else
                let (doc1, log1) =
                      (if \<not> eng_content_exists
                       then (let eng_content = remote English (fix_url (the eng_url))
                             in (if eng_content \<noteq> []
                                 then doc(ENGLISH_CONTENT_FIELD \<mapsto> eng_content) else doc,
                                 [(English, the eng_url)]))
                       else (doc, []));
                    (doc2, log2) =
                      (if \<not> hin_content_exists
                       then (let hin_content = remote Hindi (fix_url (the hin_url))
                             in (if hin_content \<noteq> []
                                 then doc1(HINDI_CONTENT_FIELD \<mapsto> hin_content) else doc1,
                                 [(Hindi, the hin_url)]))
                       else (doc1, []))
                in (doc2, log1 @ log2))"

definition main_step_en_hin ::
  "remote \<Rightarrow> ('i \<rightharpoonup> document) \<Rightarrow> 'i \<Rightarrow> ('i \<rightharpoonup> document) \<times> extraction_log" where
  "main_step_en_hin remote collection i =
     (case collection i of
        None \<Rightarrow> (collection, [])
      | Some doc \<Rightarrow>
          let eng_content_exists = truthy (doc ENGLISH_CONTENT_FIELD);
              hin_content_exists = truthy (doc HINDI_CONTENT_FIELD)
          in if eng_content_exists \<and> hin_content_exists then (collection, [])
             else
               let (updated_doc, log) = process_document_en_hin remote doc;
                   eng_content = updated_doc ENGLISH_CONTENT_FIELD;
                   hin_content = updated_doc HINDI_CONTENT_FIELD;
                   update_fields =
                     (if truthy eng_content \<and> \<not> eng_content_exists
                      then [(ENGLISH_CONTENT_FIELD, the eng_content)] else [])
                     @ (if truthy hin_content \<and> \<not> hin_content_exists
                        then [(HINDI_CONTENT_FIELD, the hin_content)] else [])
               in if update_fields \<noteq> []
                  then (collection(i \<mapsto> doc ++ map_of update_fields), log)
                  else (collection, log))"

text \<open>
  A stored document with both URLs, a Hindi content and no English content, and a world in
  which every extraction yields a text.
\<close>

definition hindi_only_doc :: document where
  "hindi_only_doc =
     [ENGLISH_URL_FIELD \<mapsto> py ''https://host/e.pdf'',
      HINDI_URL_FIELD \<mapsto> py ''https://host/h.pdf'',
      HINDI_CONTENT_FIELD \<mapsto> py ''hindi text'']"

definition sample_remote :: remote where
  "sample_remote lang url = (case lang of English \<Rightarrow> py ''english text'' | Hindi \<Rightarrow> py ''other'')"

definition sample_collection :: "nat \<rightharpoonup> document" where
  "sample_collection = [0 \<mapsto> hindi_only_doc]"

section \<open>Train/dev split (\<open>train_devSplit.py\<close>)\<close>

text \<open>
  The script reads the records of the JSONL file into \<open>data\<close>; every record has the keys
  \<open>english\<close> and \<open>hindi\<close>. \<open>random.shuffle(data)\<close> reorders the list: \<open>perm\<close> lists, for each
  position of the shuffled list, the index of the record that lands there.
\<close>

record pair_record =
  english :: pystr
  hindi :: pystr

definition shuffled :: "'a list \<Rightarrow> nat list \<Rightarrow> 'a list" where
  "shuffled data perm = map (\<lambda>i. data ! i) perm"

text \<open>
  \<open>split_idx = int(len(data) * (1 - dev_ratio))\<close>; \<open>int\<close> drops the fractional part. The
  script computes the product in binary floating point. The split below takes the value
  of the index as an input \<open>k\<close>, whatever it is, and \<open>split_idx\<close> is that value for a
  rational ratio in exact arithmetic. \<open>round\<close> is Python's: a tie goes to the even
  neighbour.
\<close>

definition py_int :: "rat \<Rightarrow> int" where
  "py_int x = (if 0 \<le> x then \<lfloor>x\<rfloor> else \<lceil>x\<rceil>)"

definition py_round :: "rat \<Rightarrow> int" where
  "py_round x =
     (let f = \<lfloor>x\<rfloor>; d = x - of_int f
      in if d < 1 / 2 then f
         else if 1 / 2 < d then f + 1
         else if even f then f else f + 1)"

definition split_idx :: "nat \<Rightarrow> rat \<Rightarrow> int" where
  "split_idx n dev_ratio = py_int (of_nat n * (1 - dev_ratio))"

text \<open>
  The slices \<open>data[:k]\<close> and \<open>data[k:]\<close>; a negative \<open>k\<close> counts from the end, and an index
  beyond either end is clamped.
\<close>

definition slice_to :: "'a list \<Rightarrow> int \<Rightarrow> 'a list" where
  "slice_to xs k = (if 0 \<le> k then take (nat k) xs else take (length xs - nat (- k)) xs)"

definition slice_from :: "'a list \<Rightarrow> int \<Rightarrow> 'a list" where
  "slice_from xs k = (if 0 \<le> k then drop (nat k) xs else drop (length xs - nat (- k)) xs)"

definition train_data :: "pair_record list \<Rightarrow> nat list \<Rightarrow> int \<Rightarrow> pair_record list" where
  "train_data data perm k = slice_to (shuffled data perm) k"

definition dev_data :: "pair_record list \<Rightarrow> nat list \<Rightarrow> int \<Rightarrow> pair_record list" where
  "dev_data data perm k = slice_from (shuffled data perm) k"

text \<open>
  Each output file receives \<open>item[key] + "\n"\<close> for every item of its part, in order. The
  lines of a file are the pieces between its line breaks; a final line break ends the last
  line.
\<close>

definition written :: "pystr list \<Rightarrow> pystr" where
  "written units = concat (map (\<lambda>u. u @ newline) units)"

definition file_lines :: "pystr \<Rightarrow> pystr list" where
  "file_lines content =
     (let pieces = split_str newline content
      in if last pieces = [] then butlast pieces else pieces)"

definition train_eng :: "pair_record list \<Rightarrow> nat list \<Rightarrow> int \<Rightarrow> pystr" where
  "train_eng data perm k = written (map english (train_data data perm k))"

definition train_hin :: "pair_record list \<Rightarrow> nat list \<Rightarrow> int \<Rightarrow> pystr" where
  "train_hin data perm k = written (map hindi (train_data data perm k))"

definition dev_eng :: "pair_record list \<Rightarrow> nat list \<Rightarrow> int \<Rightarrow> pystr" where
  "dev_eng data perm k = written (map english (dev_data data perm k))"

definition dev_hin :: "pair_record list \<Rightarrow> nat list \<Rightarrow> int \<Rightarrow> pystr" where
  "dev_hin data perm k = written (map hindi (dev_data data perm k))"

text \<open>
  Pairing as the specification words it: line \<open>i\<close> of the source-language file and line
  \<open>i\<close> of the target-language file are the two units of the \<open>i\<close>-th record of the part.
\<close>

definition paired_lines :: "pair_record list \<Rightarrow> pystr \<Rightarrow> pystr \<Rightarrow> bool" where
  "paired_lines part source_file target_file \<longleftrightarrow>
     file_lines source_file = map english part \<and> file_lines target_file = map hindi part"

text \<open>
  Three records, the first with a line break inside its English unit, and three records
  without line breaks.
\<close>

definition broken_pairs :: "pair_record list" where
  "broken_pairs =
     [\<lparr>english = py ''a'' @ newline @ py ''b'', hindi = py ''x''\<rparr>,
      \<lparr>english = py ''c'', hindi = py ''y''\<rparr>,
      \<lparr>english = py ''d'', hindi = py ''z''\<rparr>]"

definition plain_pairs :: "pair_record list" where
  "plain_pairs =
     [\<lparr>english = py ''a'', hindi = py ''x''\<rparr>,
      \<lparr>english = py ''c'', hindi = py ''y''\<rparr>,
      \<lparr>english = py ''d'', hindi = py ''z''\<rparr>]"

section \<open>Facts about splitting\<close>

lemma doWeb_eq: "doWeb = [100, 111, 87, 101, 98]"
  by (simp add: doWeb_def py_def)

lemma doQWeb_eq: "py ''do?Web'' = [100, 111, 63, 87, 101, 98]"
  by (simp add: py_def)

lemma split_from_app:
  "split_from sep (pre @ cur) s = (pre @ hd (split_from sep cur s)) # tl (split_from sep cur s)"
  by (induction sep cur s rule: split_from.induct) simp_all

lemma split_from_ne: "split_from sep cur s \<noteq> []"
  by (induction sep cur s rule: split_from.induct) simp_all

lemma split_str_Nil: "split_str sep [] = [[]]"
  by (simp add: split_str_def)

lemma split_str_match:
  "sep \<noteq> [] \<Longrightarrow> prefix sep (c # cs) \<Longrightarrow>
   split_str sep (c # cs) = [] # split_str sep (drop (length sep) (c # cs))"
  by (simp add: split_str_def)

lemma split_str_step:
  "\<not> (sep \<noteq> [] \<and> prefix sep (c # cs)) \<Longrightarrow>
   split_str sep (c # cs) = (c # hd (split_str sep cs)) # tl (split_str sep cs)"
  using split_from_app [of sep "[c]" "[]" cs] by (simp add: split_str_def)

lemma split_str_ne: "split_str sep s \<noteq> []"
  by (simp add: split_str_def split_from_ne)

lemma hd_split_prefix: "prefix (hd (split_str sep s)) s"
proof (induction s)
  case Nil
  then show ?case by (simp add: split_str_Nil)
next
  case (Cons c cs)
  then show ?case
    by (cases "sep \<noteq> [] \<and> prefix sep (c # cs)")
       (simp_all add: split_str_match split_str_step)
qed

text \<open>No piece of a split contains the separator.\<close>

lemma pieces_free:
  assumes "sep \<noteq> []"
  shows "p \<in> set (split_str sep s) \<Longrightarrow> \<not> contains sep p"
proof (induction "length s" arbitrary: s p rule: less_induct)
  case less
  show ?case
  proof (cases s)
    case Nil
    with less.prems assms show ?thesis by (simp add: split_str_Nil)
  next
    case (Cons c cs)
    show ?thesis
    proof (cases "prefix sep (c # cs)")
      case True
      let ?r = "drop (length sep) (c # cs)"
      have shorter: "length ?r < length s"
        using assms Cons by simp
      have "p = [] \<or> p \<in> set (split_str sep ?r)"
        using less.prems True assms Cons by (simp add: split_str_match)
      then show ?thesis
      proof
        assume "p = []"
        with assms show ?thesis by simp
      next
        assume "p \<in> set (split_str sep ?r)"
        then show ?thesis using less.hyps [OF shorter] by blast
      qed
    next
      case False
      let ?h = "hd (split_str sep cs)"
      have hin: "?h \<in> set (split_str sep cs)"
        by (simp add: split_str_ne)
      have eq: "split_str sep s = (c # ?h) # tl (split_str sep cs)"
        using False Cons by (simp add: split_str_step)
      have "\<not> contains sep ?h"
        using less.hyps [of cs ?h] hin Cons by simp
      moreover have "\<not> prefix sep (c # ?h)"
      proof
        assume "prefix sep (c # ?h)"
        moreover have "prefix (c # ?h) (c # cs)"
          by (simp add: hd_split_prefix)
        ultimately have "prefix sep (c # cs)"
          by (rule prefix_order.trans)
        with False show False by simp
      qed
      moreover have "q \<in> set (tl (split_str sep cs)) \<Longrightarrow> \<not> contains sep q" for q
        using less.hyps [of cs q] Cons by (auto dest: list.set_sel(2) [OF split_str_ne])
      ultimately show ?thesis
        using less.prems eq by auto
    qed
  qed
qed

lemma contains_prefix: "prefix sub s \<Longrightarrow> contains sub s"
  by (cases s) simp_all

lemma contains_app_right: "contains sub s \<Longrightarrow> contains sub (pre @ s)"
  by (induction pre) (auto simp: contains_prefix)

lemma contains_mid: "contains sub (a @ sub @ r)"
  by (rule contains_app_right) (simp add: contains_prefix)

section \<open>URL normalisation\<close>

text \<open>
  The letter \<open>d\<close> occurs in \<open>doWeb\<close> only at its start, so an occurrence that does not
  lie inside \<open>c # a\<close> cannot run on into a text that begins with \<open>d\<close>.
\<close>

lemma no_start:
  "\<not> prefix doWeb (c # a) \<Longrightarrow> \<not> prefix doWeb (c # a @ 100 # r)"
  unfolding doWeb_eq
  apply (cases a; simp)
  subgoal for c1 a1
    apply (cases a1; simp)
    subgoal for c2 a2
      apply (cases a2; simp)
      subgoal for c3 a3
        by (cases a3; simp)
      done
    done
  done

lemma free_join:
  "\<not> contains doWeb a \<Longrightarrow> \<not> contains doWeb b \<Longrightarrow> \<not> contains doWeb (a @ py ''do?Web'' @ b)"
proof (induction a)
  case Nil
  then show ?case by (simp add: doQWeb_eq doWeb_eq)
next
  case (Cons c a)
  have "\<not> prefix doWeb (c # a @ 100 # 111 # 63 # 87 # 101 # 98 # b)"
    using Cons.prems(1) no_start [of c a] by simp
  then show ?case using Cons by (simp add: doQWeb_eq)
qed

lemma split_first:
  "\<not> contains doWeb a \<Longrightarrow> split_str doWeb (a @ doWeb @ r) = a # split_str doWeb r"
proof (induction a)
  case Nil
  have "doWeb \<noteq> []" by (simp add: doWeb_eq)
  then show ?case
    using split_str_match [of doWeb 100 "[111, 87, 101, 98] @ r"]
    by (simp add: doWeb_eq)
next
  case (Cons c a)
  have "\<not> prefix doWeb (c # a @ doWeb @ r)"
    using Cons.prems no_start [of c a "[111, 87, 101, 98] @ r"] by (simp add: doWeb_eq)
  then show ?case
    using Cons by (simp add: split_str_step)
qed

text \<open>
  Claim C5. URL normalisation is idempotent, \<open>fix_url (fix_url u) = fix_url u\<close> for every
  URL \<open>u\<close>, and a URL that does not contain \<open>doWeb\<close> is returned as it is. The rewritten
  URL is \<open>parts[0] + "do?Web" + parts[1]\<close>; neither piece contains \<open>doWeb\<close>, and no
  occurrence can straddle the inserted \<open>do?Web\<close>, so the second call finds nothing to
  rewrite.
\<close>

theorem fix_url_idempotent:
  "fix_url (fix_url u) = fix_url u \<and> (\<not> contains doWeb u \<longrightarrow> fix_url u = u)"
proof -
  have nz: "doWeb \<noteq> []" by (simp add: doWeb_eq)
  have "fix_url (fix_url u) = fix_url u"
  proof (cases "contains doWeb u \<and> length (split_str doWeb u) > 1")
    case True
    let ?ps = "split_str doWeb u"
    have len: "1 < length ?ps"
      using True by simp
    have "0 < length ?ps"
      by (simp add: split_str_ne)
    then have "?ps ! 0 \<in> set ?ps"
      by (rule nth_mem)
    moreover have "?ps ! 1 \<in> set ?ps"
      using len by (rule nth_mem)
    ultimately have "\<not> contains doWeb (?ps ! 0)" "\<not> contains doWeb (?ps ! 1)"
      using pieces_free [OF nz] by blast+
    then have "\<not> contains doWeb (?ps ! 0 @ py ''do?Web'' @ ?ps ! 1)"
      by (rule free_join)
    then show ?thesis
      using True by (simp add: fix_url_def Let_def)
  next
    case False
    then have "fix_url u = u"
      by (auto simp: fix_url_def Let_def)
    then show ?thesis by simp
  qed
  moreover have "\<not> contains doWeb u \<longrightarrow> fix_url u = u"
    by (simp add: fix_url_def)
  ultimately show ?thesis by simp
qed

theorem fix_url_idempotent_witness:
  "fix_url (fix_url (py ''x.doWebY.do?id=1'')) = fix_url (py ''x.doWebY.do?id=1'')
   \<and> \<not> contains doWeb (py ''x/Web.do?id=1'')
   \<and> fix_url (py ''x/Web.do?id=1'') = py ''x/Web.do?id=1''"
  using fix_url_idempotent [of "py ''x.doWebY.do?id=1''"]
        fix_url_idempotent [of "py ''x/Web.do?id=1''"]
  by (simp add: py_def doWeb_def)

text \<open>
  Claim C10. When \<open>doWeb\<close> occurs at least twice, that is the URL is
  \<open>a @ doWeb @ b @ doWeb @ c\<close> with no occurrence inside \<open>a\<close> (so the first \<open>doWeb\<close>
  shown is the first occurrence) and none inside \<open>b\<close> (so the second one shown is the
  second occurrence), \<open>fix_url\<close> returns \<open>a\<close>, then \<open>do?Web\<close>, then \<open>b\<close>: the second
  occurrence and everything after it, \<open>c\<close>, are dropped.
\<close>

theorem fix_url_second_occurrence:
  assumes "\<not> contains doWeb a" and "\<not> contains doWeb b"
  shows "fix_url (a @ doWeb @ b @ doWeb @ c) = a @ py ''do?Web'' @ b"
proof -
  have "split_str doWeb (a @ doWeb @ b @ doWeb @ c) = a # b # split_str doWeb c"
    using assms by (simp add: split_first)
  then show ?thesis
    by (simp add: fix_url_def contains_mid)
qed

theorem fix_url_second_occurrence_witness:
  "\<not> contains doWeb (py ''h/A.'') \<and> \<not> contains doWeb (py ''B.'')
   \<and> fix_url (py ''h/A.doWebB.doWebC.do?id=7'') = py ''h/A.do?WebB.''"
proof -
  have a: "\<not> contains doWeb (py ''h/A.'')" and b: "\<not> contains doWeb (py ''B.'')"
    by (simp_all add: py_def doWeb_def)
  show ?thesis
    using a b fix_url_second_occurrence [OF a b, of "py ''C.do?id=7''"]
    by (simp add: py_def doWeb_def)
qed

section \<open>Native extraction\<close>

lemma tables_loop_acc: "tables_loop ts acc = acc @ tables_loop ts []"
proof (induction ts arbitrary: acc)
  case Nil
  then show ?case by simp
next
  case (Cons t ts)
  show ?case
  proof (cases "extract_rows t")
    case Raises
    then show ?thesis by simp
  next
    case (Returns rows)
    then show ?thesis
      using Cons [of "acc @ map row_text rows"] Cons [of "map row_text rows"] by simp
  qed
qed

lemma tables_loop_rows:
  "tables_loop ts [] =
   map row_text (concat (map rows_of (takeWhile (\<lambda>t. extract_rows t \<noteq> Raises) ts)))"
proof (induction ts)
  case Nil
  then show ?case by simp
next
  case (Cons t ts)
  show ?case
  proof (cases "extract_rows t")
    case Raises
    then show ?thesis by simp
  next
    case (Returns rows)
    then show ?thesis
      using Cons tables_loop_acc [of ts "map row_text rows"] by (simp add: rows_of_def)
  qed
qed

lemma extract_tables_lines: "extract_tables_from_page p = page_table_lines p"
  by (cases "find_tables p")
     (simp_all add: extract_tables_from_page_def page_table_lines_def reported_rows_def
        tables_loop_rows)

lemma pymupdf_loop_pieces: "pymupdf_loop ps acc = acc @ concat (map page_pieces ps)"
proof (induction ps arbitrary: acc)
  case Nil
  then show ?case by simp
next
  case (Cons p ps)
  show ?case
    by (simp add: Cons Let_def extract_tables_lines page_pieces_def page_prose_def)
qed

lemma native_text_pieces:
  "is_file d \<Longrightarrow> opens d \<Longrightarrow>
   extract_pdf_with_pymupdf d = join newline (concat (map page_pieces (pages d)))"
  by (simp add: extract_pdf_with_pymupdf_def pymupdf_loop_pieces)





section \<open>OCR extraction\<close>

lemma ocr_chunks_acc: "ocr_chunks d chunks acc = acc @ concat (map (chunk_text d) chunks)"
proof (induction chunks arbitrary: acc)
  case Nil
  then show ?case by simp
next
  case (Cons c chunks)
  obtain a b where c: "c = (a, b)" by (cases c)
  show ?case
    by (cases "convert_pdf_to_images d a b") (auto simp: c Cons chunk_text_def)
qed

lemma chunk_text_pages:
  assumes "is_file d" and "\<not> raster_raises d (Some (a, b))"
  shows "chunk_text d (a, b) = map (\<lambda>p. ocr_image (image p)) (page_range (pages d) a b)"
  using assms by (simp add: chunk_text_def convert_pdf_to_images_def convert_from_path_def)

text \<open>The page ranges of the chunks, one after the other, are the pages of the document.\<close>

lemma range_up_pages:
  "0 < C \<Longrightarrow> 1 \<le> i \<Longrightarrow> stop = int (length ps) + 1 \<Longrightarrow>
    concat (map (\<lambda>s. page_range ps s (chunk_end s C (int (length ps)))) (range_up i stop C))
    = drop (nat (i - 1)) ps"
proof (induction i stop C rule: range_up.induct)
  case (1 i stop C)
  let ?P = "int (length ps)"
  let ?k = "nat (i - 1)"
  show ?case
  proof (cases "i < stop")
    case False
    then show ?thesis using 1 by (simp add: range_up.simps [of i])
  next
    case True
    have IH: "concat (map (\<lambda>s. page_range ps s (chunk_end s C ?P)) (range_up (i + C) stop C))
              = drop (nat (i + C - 1)) ps"
      using 1 True by simp
    have unfold: "range_up i stop C = i # range_up (i + C) stop C"
      using 1 True by (simp add: range_up.simps [of i])
    have "page_range ps i (chunk_end i C ?P) @ drop (nat (i + C - 1)) ps = drop ?k ps"
    proof (cases "i + C - 1 \<le> ?P")
      case True
      have "nat (i + C - 1) = nat C + ?k"
        using 1 by simp
      then have "drop (nat (i + C - 1)) ps = drop (nat C) (drop ?k ps)"
        by simp
      moreover have "page_range ps i (chunk_end i C ?P) = take (nat C) (drop ?k ps)"
        using True by (simp add: page_range_def chunk_end_def)
      ultimately show ?thesis
        using append_take_drop_id [of "nat C" "drop ?k ps"] by simp
    next
      case False
      then have "drop (nat (i + C - 1)) ps = []"
        by simp
      moreover have "page_range ps i (chunk_end i C ?P) = drop ?k ps"
        using False 1 by (simp add: page_range_def chunk_end_def)
      ultimately show ?thesis by simp
    qed
    then show ?thesis
      using IH unfold by simp
  qed
qed

text \<open>The page numbers of the chunks, one after the other, are \<open>i, ..., P\<close>.\<close>

lemma range_up_cover:
  "0 < C \<Longrightarrow> concat (map (\<lambda>s. [s..chunk_end s C P]) (range_up i (P + 1) C)) = [i..P]"
proof (induction i "P + 1" C rule: range_up.induct)
  case (1 i C)
  show ?case
  proof (cases "i < P + 1")
    case False
    then show ?thesis using 1 by (simp add: range_up.simps [of i])
  next
    case True
    have IH: "concat (map (\<lambda>s. [s..chunk_end s C P]) (range_up (i + C) (P + 1) C)) = [i + C..P]"
      using 1 True by simp
    have unfold: "range_up i (P + 1) C = i # range_up (i + C) (P + 1) C"
      using 1 True by (simp add: range_up.simps [of i])
    have "[i..chunk_end i C P] @ [i + C..P] = [i..P]"
    proof (cases "i + C - 1 \<le> P")
      case True
      then have "chunk_end i C P = i + C - 1"
        by (simp add: chunk_end_def)
      moreover have "[i..P] = [i..i + C - 1] @ [i + C - 1 + 1..P]"
        using True 1 by (intro upto_split2) simp_all
      ultimately show ?thesis by simp
    next
      case False
      then show ?thesis by (simp add: chunk_end_def)
    qed
    then show ?thesis
      using IH unfold by simp
  qed
qed

lemma range_up_sizes:
  "0 < C \<Longrightarrow> 1 \<le> i \<Longrightarrow> s \<in> set (range_up i (P + 1) C) \<Longrightarrow>
   s \<le> chunk_end s C P \<and> chunk_end s C P - s + 1 \<le> C"
proof (induction i "P + 1" C rule: range_up.induct)
  case (1 i C)
  show ?case
  proof (cases "i < P + 1")
    case False
    then show ?thesis using 1 by (simp add: range_up.simps [of i])
  next
    case True
    have "range_up i (P + 1) C = i # range_up (i + C) (P + 1) C"
      using 1 True by (simp add: range_up.simps [of i])
    then have "s = i \<or> s \<in> set (range_up (i + C) (P + 1) C)"
      using 1(4) by simp
    then show ?thesis
    proof
      assume "s = i"
      then show ?thesis using True 1(2) by (simp add: chunk_end_def)
    next
      assume "s \<in> set (range_up (i + C) (P + 1) C)"
      then show ?thesis using 1 True by simp
    qed
  qed
qed

lemma chunk_bounds_120: "chunk_bounds 120 50 = Inr [(1, 50), (51, 100), (101, 120)]"
  by (simp add: chunk_bounds_def py_range_def chunk_end_def range_up.simps)

lemma ocr_text_by_chunks:
  assumes "0 < C" and "is_file d" and "opens d"
  shows "extract_pdf_with_ocr d C =
         Inr (join newline (concat (map (chunk_text d)
                (map (\<lambda>s. (s, chunk_end s C (int (length (pages d)))))
                     (range_up 1 (int (length (pages d)) + 1) C)))))"
  using assms
  by (simp add: extract_pdf_with_ocr_def chunk_bounds_def py_range_def ocr_chunks_acc)

lemma ocr_text_in_page_order:
  assumes "0 < C" and "is_file d" and "opens d" and "\<forall>r. \<not> raster_raises d r"
  shows "extract_pdf_with_ocr d C = Inr (join newline (map (\<lambda>p. ocr_image (image p)) (pages d)))"
proof -
  let ?P = "int (length (pages d))"
  let ?starts = "range_up 1 (?P + 1) C"
  have "concat (map (chunk_text d) (map (\<lambda>s. (s, chunk_end s C ?P)) ?starts))
        = concat (map (\<lambda>s. map (\<lambda>p. ocr_image (image p))
                               (page_range (pages d) s (chunk_end s C ?P))) ?starts)"
    using assms(2,4) by (simp add: comp_def chunk_text_pages)
  also have "\<dots> = map (\<lambda>p. ocr_image (image p))
                     (concat (map (\<lambda>s. page_range (pages d) s (chunk_end s C ?P)) ?starts))"
    by (simp add: map_concat comp_def)
  also have "\<dots> = map (\<lambda>p. ocr_image (image p)) (pages d)"
    using range_up_pages [of C 1 "?P + 1" "pages d"] assms(1) by simp
  finally show ?thesis
    using ocr_text_by_chunks [OF assms(1,2,3)] by simp
qed

text \<open>
  Claim C7. With \<open>P\<close> pages and a chunk size \<open>C\<close> of at least one, the chunks
  \<open>(chunk_start, chunk_end)\<close> of \<open>extract_pdf_with_ocr\<close> are contiguous page ranges of at
  most \<open>C\<close> pages whose page numbers, chunk after chunk, are exactly \<open>1, ..., P\<close>: every
  page lies in one chunk and in one only. The text returned is what the chunks yield, in
  chunk order. For 120 pages and chunk size 50 the chunks are pages 1 to 50, 51 to 100 and
  101 to 120. When every chunk is rasterised, the text is the OCR result of page 1, of
  page 2, and so on in page order, joined by newlines.
\<close>

theorem ocr_chunking:
  assumes "0 < C"
  shows "(\<exists>chunks. chunk_bounds (int (length (pages d))) C = Inr chunks
            \<and> concat (map (\<lambda>(a, b). [a..b]) chunks) = [1..int (length (pages d))]
            \<and> (\<forall>(a, b) \<in> set chunks. a \<le> b \<and> b - a + 1 \<le> C)
            \<and> (is_file d \<longrightarrow> opens d \<longrightarrow>
                 extract_pdf_with_ocr d C = Inr (join newline (concat (map (chunk_text d) chunks)))))
         \<and> chunk_bounds 120 50 = Inr [(1, 50), (51, 100), (101, 120)]
         \<and> (is_file d \<longrightarrow> opens d \<longrightarrow> (\<forall>r. \<not> raster_raises d r) \<longrightarrow>
              extract_pdf_with_ocr d C
              = Inr (join newline (map (\<lambda>p. ocr_image (image p)) (pages d))))"
proof -
  let ?P = "int (length (pages d))"
  let ?chunks = "map (\<lambda>s. (s, chunk_end s C ?P)) (range_up 1 (?P + 1) C)"
  have "chunk_bounds ?P C = Inr ?chunks"
    using assms by (simp add: chunk_bounds_def py_range_def)
  moreover have "concat (map (\<lambda>(a, b). [a..b]) ?chunks) = [1..?P]"
    using range_up_cover [OF assms, of ?P 1] by (simp add: comp_def)
  moreover have "\<forall>(a, b) \<in> set ?chunks. a \<le> b \<and> b - a + 1 \<le> C"
    using range_up_sizes [OF assms, of 1 _ ?P] by auto
  moreover have "is_file d \<longrightarrow> opens d \<longrightarrow>
      extract_pdf_with_ocr d C = Inr (join newline (concat (map (chunk_text d) ?chunks)))"
    using ocr_text_by_chunks [OF assms] by blast
  ultimately have "\<exists>chunks. chunk_bounds ?P C = Inr chunks
            \<and> concat (map (\<lambda>(a, b). [a..b]) chunks) = [1..?P]
            \<and> (\<forall>(a, b) \<in> set chunks. a \<le> b \<and> b - a + 1 \<le> C)
            \<and> (is_file d \<longrightarrow> opens d \<longrightarrow>
                 extract_pdf_with_ocr d C = Inr (join newline (concat (map (chunk_text d) chunks))))"
    by blast
  moreover have "is_file d \<longrightarrow> opens d \<longrightarrow> (\<forall>r. \<not> raster_raises d r) \<longrightarrow>
              extract_pdf_with_ocr d C
              = Inr (join newline (map (\<lambda>p. ocr_image (image p)) (pages d)))"
    using ocr_text_in_page_order [OF assms] by blast
  ultimately show ?thesis
    using chunk_bounds_120 by blast
qed

theorem ocr_chunking_witness:
  "(0::int) < 1 \<and> is_file two_page_pdf \<and> opens two_page_pdf
   \<and> extract_pdf_with_ocr two_page_pdf 1 = Inr (py ''A'' @ newline @ py ''B'')"
  using ocr_chunking [of 1 two_page_pdf]
  by (simp add: two_page_pdf_def ocr_image_def py_def newline_def)

text \<open>\<open>pdf_to_text\<close> keeps the non-blank page results in the order of completion.\<close>

lemma collect_completed_order:
  "collect_completed imgs completion acc =
   acc @ filter (\<lambda>t. t \<noteq> [] \<and> strip t \<noteq> [])
           (map (\<lambda>i. process_image (imgs ! i)) (filter (\<lambda>i. i < length imgs) completion))"
  by (induction completion arbitrary: acc) (simp_all add: Let_def)

text \<open>
  Claim C1. The OCR output is to hold the page results in page order whatever the order
  in which the workers finish. \<open>extract_pdf_with_ocr\<close> does so (\<open>ocr_text_in_page_order\<close>),
  but \<open>pdf_to_text\<close> appends the results in completion order: on the two-page document
  whose pages read \<open>A\<close> and \<open>B\<close>, when the second page finishes first, it returns
  \<open>B\<close> before \<open>A\<close>.
\<close>

theorem pdf_to_text_completion_order:
  "pdf_to_text two_page_pdf [1, 0] = py ''B'' @ newline @ py ''A''
   \<and> pdf_to_text two_page_pdf [1, 0]
       \<noteq> join newline (map (\<lambda>p. process_image (image p)) (pages two_page_pdf))"
  by (simp add: pdf_to_text_def two_page_pdf_def convert_from_path_def process_image_def
      strip_def is_space_def py_def newline_def)

lemma process_image_recognised: "process_image img = recognised img"
  by (simp add: process_image_def recognised_def)

lemma ocr_image_recognised: "ocr_image img = recognised img"
  by (cases img) (simp_all add: ocr_image_def recognised_def)

lemma filter_skip_blank:
  assumes "\<And>i. P i \<Longrightarrow> \<not> P' i \<Longrightarrow> \<not> Q (f i)" and "\<And>i. P' i \<Longrightarrow> P i"
  shows "filter Q (map f (filter P xs)) = filter Q (map f (filter P' xs))"
  using assms by (induction xs) auto

lemma pdf_to_text_skips_fault:
  assumes "pages d = before @ p # after" and "is_file d" and "\<not> raster_raises d None"
    and "image p = Raises"
  shows "pdf_to_text d completion
         = join newline
             (filter (\<lambda>t. t \<noteq> [] \<and> strip t \<noteq> [])
                (map (\<lambda>i. recognised (image (pages d ! i)))
                     (filter (\<lambda>i. i < length (pages d) \<and> i \<noteq> length before) completion)))"
proof -
  let ?imgs = "map image (pages d)"
  let ?Q = "\<lambda>t. t \<noteq> [] \<and> strip t \<noteq> []"
  have conv: "convert_from_path d None = Returns ?imgs"
    using assms(2,3) by (simp add: convert_from_path_def)
  have fault: "recognised (?imgs ! length before) = []"
    using assms(1,4) by (simp add: recognised_def nth_append)
  have "filter ?Q (map (\<lambda>i. recognised (?imgs ! i)) (filter (\<lambda>i. i < length ?imgs) completion))
        = filter ?Q (map (\<lambda>i. recognised (?imgs ! i))
                         (filter (\<lambda>i. i < length ?imgs \<and> i \<noteq> length before) completion))"
    using fault by (intro filter_skip_blank) auto
  also have "\<dots> = filter ?Q (map (\<lambda>i. recognised (image (pages d ! i)))
                         (filter (\<lambda>i. i < length (pages d) \<and> i \<noteq> length before) completion))"
    by (rule arg_cong [where f = "filter ?Q"]) (auto intro!: map_cong)
  finally show ?thesis
    using conv by (simp add: pdf_to_text_def collect_completed_order process_image_recognised)
qed

text \<open>
  Claim C3. A failure on one page stays on that page. For a page \<open>p\<close> anywhere in an
  opened document: when table detection raises, \<open>p\<close> gives no table lines and the native
  output is made of the content of the pages before \<open>p\<close>, the prose of \<open>p\<close> and the
  content of the pages after \<open>p\<close>; when text extraction raises, \<open>p\<close> gives the empty text
  and the output is made of the pages before, the table lines of \<open>p\<close> and the pages after;
  when Tesseract raises on \<open>p\<close>, both OCR wrappers give the empty string for \<open>p\<close>, the
  output of \<open>extract_pdf_with_ocr\<close> holds the results of the pages before, an empty entry,
  and the results of the pages after, and the output of \<open>pdf_to_text\<close> holds the non-blank
  recognised text of every completed page other than \<open>p\<close>. The extractors return these
  values: nothing is raised to the caller.
\<close>

theorem page_fault_isolated:
  assumes "pages d = before @ p # after" and "is_file d" and "opens d"
  shows "(find_tables p = Raises \<longrightarrow>
            extract_tables_from_page p = []
            \<and> extract_pdf_with_pymupdf d
                = join newline (concat (map page_pieces before) @ page_prose p
                                @ concat (map page_pieces after)))
       \<and> (get_text p = Raises \<longrightarrow>
            extract_text_no_tables p = []
            \<and> extract_pdf_with_pymupdf d
                = join newline (concat (map page_pieces before) @ page_table_lines p
                                @ concat (map page_pieces after)))
       \<and> (image p = Raises \<longrightarrow>
            ocr_image (image p) = [] \<and> process_image (image p) = []
            \<and> (0 < C \<longrightarrow> (\<forall>r. \<not> raster_raises d r) \<longrightarrow>
                 extract_pdf_with_ocr d C
                 = Inr (join newline (map (\<lambda>q. recognised (image q)) before @ []
                                      # map (\<lambda>q. recognised (image q)) after)))
            \<and> (\<not> raster_raises d None \<longrightarrow>
                 pdf_to_text d completion
                 = join newline
                     (filter (\<lambda>t. t \<noteq> [] \<and> strip t \<noteq> [])
                        (map (\<lambda>i. recognised (image (pages d ! i)))
                           (filter (\<lambda>i. i < length (pages d) \<and> i \<noteq> length before)
                              completion)))))"
proof -
  have native: "extract_pdf_with_pymupdf d
      = join newline (concat (map page_pieces before) @ page_table_lines p @ page_prose p
                      @ concat (map page_pieces after))"
    using native_text_pieces [OF assms(2,3)] assms(1) by (simp add: page_pieces_def)
  have "find_tables p = Raises \<Longrightarrow> page_table_lines p = []"
    by (simp add: page_table_lines_def reported_rows_def)
  moreover have "find_tables p = Raises \<Longrightarrow> extract_tables_from_page p = []"
    by (simp add: extract_tables_from_page_def)
  moreover have "get_text p = Raises \<Longrightarrow> extract_text_no_tables p = []"
    by (simp add: extract_text_no_tables_def)
  moreover have "get_text p = Raises \<Longrightarrow> page_prose p = []"
    by (simp add: page_prose_def extract_text_no_tables_def strip_def)
  moreover have "image p = Raises \<Longrightarrow> ocr_image (image p) = [] \<and> process_image (image p) = []"
    by (simp add: ocr_image_def process_image_def)
  moreover have "image p = Raises \<Longrightarrow> 0 < C \<Longrightarrow> \<forall>r. \<not> raster_raises d r \<Longrightarrow>
       extract_pdf_with_ocr d C
       = Inr (join newline (map (\<lambda>q. recognised (image q)) before @ []
                            # map (\<lambda>q. recognised (image q)) after))"
    using ocr_text_in_page_order [OF _ assms(2,3), of C] assms(1)
    by (simp add: ocr_image_recognised recognised_def)
  moreover have "image p = Raises \<Longrightarrow> \<not> raster_raises d None \<Longrightarrow>
       pdf_to_text d completion
       = join newline
           (filter (\<lambda>t. t \<noteq> [] \<and> strip t \<noteq> [])
              (map (\<lambda>i. recognised (image (pages d ! i)))
                 (filter (\<lambda>i. i < length (pages d) \<and> i \<noteq> length before) completion)))"
    using pdf_to_text_skips_fault [OF assms(1,2)] by blast
  ultimately show ?thesis
    using native by (simp del: append_assoc)
qed

theorem page_fault_isolated_witness:
  "pages faulty_pdf = [hd (pages faulty_pdf)] @ faulty_page # [last (pages faulty_pdf)]
   \<and> is_file faulty_pdf \<and> opens faulty_pdf
   \<and> find_tables faulty_page = Raises \<and> get_text faulty_page = Raises
   \<and> image faulty_page = Raises \<and> (0::int) < 50
   \<and> extract_pdf_with_pymupdf faulty_pdf = py ''A'' @ newline @ py ''C''
   \<and> extract_pdf_with_ocr faulty_pdf 50 = Inr (py ''A'' @ newline @ newline @ py ''C'')
   \<and> pdf_to_text faulty_pdf [0, 1, 2] = py ''A'' @ newline @ py ''C''
   \<and> pdf_to_text faulty_pdf [2, 1, 0] = py ''C'' @ newline @ py ''A''"
  using page_fault_isolated [of faulty_pdf "[hd (pages faulty_pdf)]" faulty_page
          "[last (pages faulty_pdf)]" 50 "[0, 1, 2]"]
        page_fault_isolated [of faulty_pdf "[hd (pages faulty_pdf)]" faulty_page
          "[last (pages faulty_pdf)]" 50 "[2, 1, 0]"]
  by (simp add: faulty_pdf_def faulty_page_def page_pieces_def page_table_lines_def
      page_prose_def reported_rows_def extract_text_no_tables_def ocr_image_def recognised_def
      strip_def is_space_def py_def newline_def)

section \<open>Language filter and orchestrator\<close>

lemma strip_Nil_iff: "strip s = [] \<longleftrightarrow> (\<forall>c \<in> set s. is_space c)"
proof
  assume "strip s = []"
  then have "\<forall>c \<in> set (dropWhile is_space s). is_space c"
    by (simp add: strip_def dropWhile_eq_Nil_conv)
  then have "dropWhile is_space s = []"
    using hd_dropWhile [of is_space s] by (cases "dropWhile is_space s") auto
  then show "\<forall>c \<in> set s. is_space c"
    by (simp add: dropWhile_eq_Nil_conv)
next
  assume "\<forall>c \<in> set s. is_space c"
  then show "strip s = []"
    by (auto simp: strip_def dest: set_dropWhileD)
qed

lemma set_strip: "set (strip s) \<subseteq> set s"
proof -
  have "set (strip s) \<subseteq> set (dropWhile is_space s)"
    using set_dropWhileD [of _ is_space "rev (dropWhile is_space s)"]
    by (auto simp: strip_def)
  then show ?thesis
    using set_dropWhileD [of _ is_space s] by blast
qed

lemma strip_fixed:
  assumes "s = [] \<or> (\<not> is_space (hd s) \<and> \<not> is_space (last s))"
  shows "strip s = s"
proof (cases s)
  case Nil
  then show ?thesis by (simp add: strip_def)
next
  case (Cons c cs)
  then have h: "\<not> is_space (hd s)" and l: "\<not> is_space (last s)"
    using assms by auto
  have "dropWhile is_space s = s"
    using h Cons by simp
  moreover have "dropWhile is_space (rev s) = rev s"
    using l Cons by (cases "rev s") (auto simp: last_rev hd_rev [symmetric])
  ultimately show ?thesis
    by (simp add: strip_def)
qed

lemma strip_ends:
  assumes "strip s \<noteq> []"
  shows "\<not> is_space (hd (strip s))" and "\<not> is_space (last (strip s))"
proof -
  let ?d = "dropWhile is_space s"
  let ?e = "dropWhile is_space (rev ?d)"
  have e: "?e \<noteq> []" using assms by (simp add: strip_def)
  have d: "?d \<noteq> []"
  proof
    assume "?d = []"
    then have "?e = []" by (simp only: rev.simps dropWhile.simps)
    with e show False ..
  qed
  have "\<not> is_space (hd ?e)"
    using e hd_dropWhile by blast
  then show "\<not> is_space (last (strip s))"
    using e by (simp add: strip_def last_rev)
  have "\<not> is_space (hd ?d)"
    using d hd_dropWhile by blast
  then have "\<not> is_space (last (rev ?d))"
    using d by (simp add: last_rev)
  then have "last ?e = last (rev ?d)"
    using e by (metis append_Nil2 last_appendR takeWhile_dropWhile_id)
  then have "last ?e = hd ?d"
    using d by (simp add: last_rev)
  then show "\<not> is_space (hd (strip s))"
    using e \<open>\<not> is_space (hd ?d)\<close> by (simp add: strip_def hd_rev)
qed

lemma strip_Cons_space: "is_space c \<Longrightarrow> strip (c # s) = strip s"
  by (simp add: strip_def)

lemma strip_strip: "strip (strip s) = strip s"
proof (cases "strip s = []")
  case True
  have "strip [] = []" by (simp add: strip_def)
  with True show ?thesis by simp
next
  case False
  then show ?thesis
    using strip_ends [OF False] by (intro strip_fixed) simp
qed

lemma strip_decomp: "\<exists>pre post. s = pre @ strip s @ post"
proof -
  let ?d = "dropWhile is_space s"
  have 1: "s = takeWhile is_space s @ ?d" by simp
  have "strip s @ rev (takeWhile is_space (rev ?d))
        = rev (takeWhile is_space (rev ?d) @ dropWhile is_space (rev ?d))"
    by (simp only: strip_def rev_append)
  also have "\<dots> = ?d"
    by simp
  finally have "?d = strip s @ rev (takeWhile is_space (rev ?d))"
    by simp
  with 1 have "s = takeWhile is_space s @ strip s @ rev (takeWhile is_space (rev ?d))"
    by simp
  then show ?thesis by blast
qed

lemma set_collapse_spaces: "set (collapse_spaces s) \<subseteq> insert 32 (set s)"
proof (induction s rule: collapse_spaces.induct)
  case 1
  then show ?case by simp
next
  case (2 c cs)
  show ?case
  proof (cases "is_space c")
    case True
    then show ?thesis
      using 2(1) set_dropWhileD [of _ is_space cs] by auto
  next
    case False
    then show ?thesis using 2(2) by auto
  qed
qed

lemma collapse_spaces_hd:
  "s \<noteq> [] \<Longrightarrow> \<not> is_space (hd s) \<Longrightarrow> collapse_spaces s \<noteq> [] \<and> hd (collapse_spaces s) = hd s"
  by (cases s) simp_all

lemma space_32: "is_space 32"
  by (simp add: is_space_def)

lemma collapsed_collapse_spaces: "collapsed (collapse_spaces s)"
proof (induction s rule: collapse_spaces.induct)
  case 1
  then show ?case by simp
next
  case (2 c cs)
  show ?case
  proof (cases "is_space c")
    case True
    let ?d = "dropWhile is_space cs"
    have "collapse_spaces ?d = [] \<or> \<not> is_space (hd (collapse_spaces ?d))"
    proof (cases "?d = []")
      case True
      then have "collapse_spaces ?d = []"
        by (simp only: collapse_spaces.simps)
      then show ?thesis ..
    next
      case False
      then have "\<not> is_space (hd ?d)"
        using hd_dropWhile by blast
      then show ?thesis
        using collapse_spaces_hd [OF False] by simp
    qed
    then show ?thesis
      using True 2(1) by simp
  next
    case False
    then show ?thesis using 2(2) by simp
  qed
qed

lemma collapse_spaces_fixed: "collapsed s \<Longrightarrow> collapse_spaces s = s"
proof (induction s)
  case Nil
  then show ?case by simp
next
  case (Cons c cs)
  show ?case
  proof (cases "is_space c")
    case True
    then have "c = 32" and "cs = [] \<or> \<not> is_space (hd cs)"
      using Cons.prems by simp_all
    then have "dropWhile is_space cs = cs"
      by (cases cs) auto
    then show ?thesis
      using True \<open>c = 32\<close> Cons by simp
  next
    case False
    then show ?thesis using Cons by simp
  qed
qed

lemma collapsed_append: "collapsed (a @ b) \<Longrightarrow> collapsed a \<and> collapsed b"
proof (induction a)
  case Nil
  then show ?case by simp
next
  case (Cons c a)
  then show ?case
    by (cases a) auto
qed

lemma collapsed_strip: "collapsed s \<Longrightarrow> collapsed (strip s)"
proof -
  assume c: "collapsed s"
  obtain pre post where "s = pre @ strip s @ post"
    using strip_decomp by blast
  then have "collapsed (pre @ strip s @ post)"
    using c by simp
  then show ?thesis
    using collapsed_append by blast
qed

lemma collapsed_spaces: "collapsed s \<Longrightarrow> c \<in> set s \<Longrightarrow> is_space c \<Longrightarrow> c = 32"
  by (induction s) auto

text \<open>What the loop body makes of an accepted sentence is a clean unit.\<close>

lemma clean_unit_made:
  assumes "46 \<notin> set s1" and "strip (collapse_spaces (filter allowed_char s1)) \<noteq> []"
  shows "clean_unit (strip (collapse_spaces (filter allowed_char s1)))"
proof -
  let ?v = "filter allowed_char s1"
  let ?u = "strip (collapse_spaces ?v)"
  have "set ?u \<subseteq> insert 32 (set ?v)"
    using set_strip set_collapse_spaces by blast
  moreover have "allowed_char 32" "(32::nat) \<noteq> 46"
    by (simp_all add: allowed_char_def is_space_def)
  ultimately have "\<forall>c \<in> set ?u. allowed_char c \<and> c \<noteq> 46"
    using assms(1) by auto
  then have "list_all (\<lambda>c. allowed_char c \<and> c \<noteq> 46) ?u"
    by (simp add: list_all_iff)
  moreover have "collapsed ?u"
    by (intro collapsed_strip collapsed_collapse_spaces)
  ultimately show ?thesis
    using assms(2) strip_ends [OF assms(2)] by (simp add: clean_unit_def)
qed

lemma clean_unit_fixed:
  assumes "clean_unit u"
  shows "strip u = u" and "filter allowed_char u = u" and "collapse_spaces u = u"
    and "strip (32 # u) = u" and "46 \<notin> set u" and "10 \<notin> set u"
proof -
  show 1: "strip u = u"
    using assms by (intro strip_fixed) (simp add: clean_unit_def)
  show "filter allowed_char u = u"
    using assms by (simp add: clean_unit_def list_all_iff)
  show "collapse_spaces u = u"
    using assms by (simp add: clean_unit_def collapse_spaces_fixed)
  show "strip (32 # u) = u"
    using 1 by (simp add: strip_Cons_space space_32)
  show "46 \<notin> set u"
    using assms by (auto simp: clean_unit_def list_all_iff)
  have "is_space 10" by (simp add: is_space_def)
  then show "10 \<notin> set u"
    using assms collapsed_spaces [of u 10] by (auto simp: clean_unit_def)
qed

lemma split_single_first:
  "c \<notin> set a \<Longrightarrow> split_str [c] (a @ c # r) = a # split_str [c] r"
proof (induction a)
  case Nil
  then show ?case
    using split_str_match [of "[c]" c r] by simp
next
  case (Cons x a)
  then have "\<not> ([c] \<noteq> [] \<and> prefix [c] (x # a @ c # r))"
    by auto
  then have "split_str [c] (x # a @ c # r)
             = (x # hd (split_str [c] (a @ c # r))) # tl (split_str [c] (a @ c # r))"
    by (rule split_str_step)
  then show ?case
    using Cons by simp
qed

lemma split_single_none: "c \<notin> set a \<Longrightarrow> split_str [c] a = [a]"
proof (induction a)
  case Nil
  then show ?case by (simp add: split_str_Nil)
next
  case (Cons x a)
  then have "\<not> ([c] \<noteq> [] \<and> prefix [c] (x # a))"
    by auto
  then have "split_str [c] (x # a) = (x # hd (split_str [c] a)) # tl (split_str [c] a)"
    by (rule split_str_step)
  then show ?case
    using Cons by simp
qed

lemma pieces_subset: "p \<in> set (split_str sep s) \<Longrightarrow> set p \<subseteq> set s"
proof (induction "length s" arbitrary: s p rule: less_induct)
  case less
  show ?case
  proof (cases s)
    case Nil
    with less.prems show ?thesis by (simp add: split_str_Nil)
  next
    case (Cons c cs)
    show ?thesis
    proof (cases "sep \<noteq> [] \<and> prefix sep (c # cs)")
      case True
      let ?r = "drop (length sep) (c # cs)"
      have shorter: "length ?r < length s"
        using True Cons by simp
      have "p = [] \<or> p \<in> set (split_str sep ?r)"
        using less.prems True Cons by (simp add: split_str_match)
      then show ?thesis
      proof
        assume "p = []"
        then show ?thesis by simp
      next
        assume "p \<in> set (split_str sep ?r)"
        then have "set p \<subseteq> set ?r"
          using less.hyps [OF shorter] by blast
        then show ?thesis
          using set_drop_subset [of "length sep" "c # cs"] Cons by blast
      qed
    next
      case False
      let ?h = "hd (split_str sep cs)"
      have eq: "split_str sep s = (c # ?h) # tl (split_str sep cs)"
        using False Cons by (simp add: split_str_step)
      have "\<And>q. q \<in> set (split_str sep cs) \<Longrightarrow> set q \<subseteq> set cs"
        using less.hyps [of cs] Cons by simp
      moreover have "?h \<in> set (split_str sep cs)"
        by (simp add: split_str_ne)
      moreover have "\<And>q. q \<in> set (tl (split_str sep cs)) \<Longrightarrow> q \<in> set (split_str sep cs)"
        by (rule list.set_sel(2) [OF split_str_ne])
      ultimately have tail: "\<And>q. q \<in> set (tl (split_str sep cs)) \<Longrightarrow> set q \<subseteq> set cs"
        and head: "set ?h \<subseteq> set cs"
        by blast+
      have "p = c # ?h \<or> p \<in> set (tl (split_str sep cs))"
        using less.prems eq by simp
      then show ?thesis
      proof
        assume "p = c # ?h"
        then show ?thesis using head Cons by auto
      next
        assume "p \<in> set (tl (split_str sep cs))"
        then show ?thesis using tail Cons by auto
      qed
    qed
  qed
qed

lemma contains_single: "contains [c] s \<longleftrightarrow> c \<in> set s"
  by (induction s) auto

lemma sentences_no_period: "s \<in> set (split_into_sentences t) \<Longrightarrow> 46 \<notin> set s"
proof -
  assume "s \<in> set (split_into_sentences t)"
  then have "\<not> contains [46] s"
    using pieces_free [of "[46]" s t] by (simp add: split_into_sentences_def py_def)
  then show ?thesis
    by (simp add: contains_single)
qed

lemma dot_space: "py ''. '' = [46, 32]" and dot: "py ''.'' = [46]"
  by (simp_all add: py_def)

lemma split_join_units:
  "us \<noteq> [] \<Longrightarrow> \<forall>u \<in> set us. 46 \<notin> set u \<Longrightarrow>
   split_into_sentences (join (py ''. '') us) = hd us # map ((#) 32) (tl us)"
proof (induction us)
  case Nil
  then show ?case by simp
next
  case (Cons x us)
  show ?case
  proof (cases us)
    case Nil
    then show ?thesis
      using Cons.prems by (simp add: split_into_sentences_def dot split_single_none)
  next
    case (Cons y ys)
    let ?j = "join [46, 32] (y # ys)"
    have "split_str [46] (x @ 46 # 32 # ?j) = x # split_str [46] (32 # ?j)"
      using Cons.prems by (intro split_single_first) simp
    also have "split_str [46] (32 # ?j)
          = (32 # hd (split_str [46] ?j)) # tl (split_str [46] ?j)"
      by (rule split_str_step) simp
    also have "split_str [46] ?j = y # map ((#) 32) ys"
      using Cons.IH Cons.prems Cons by (simp add: split_into_sentences_def dot dot_space)
    finally show ?thesis
      using Cons by (simp add: split_into_sentences_def dot dot_space)
  qed
qed

lemma join_hd: "us \<noteq> [] \<Longrightarrow> hd us \<noteq> [] \<Longrightarrow> hd (join sep us) = hd (hd us)"
proof (cases us)
  case Nil
  assume "us \<noteq> []"
  with Nil show ?thesis by simp
next
  case (Cons x xs)
  assume "hd us \<noteq> []"
  then show ?thesis using Cons by (cases xs) auto
qed

lemma join_ne: "us \<noteq> [] \<Longrightarrow> last us \<noteq> [] \<Longrightarrow> join sep us \<noteq> []"
  by (induction sep us rule: join.induct) auto

lemma join_last: "us \<noteq> [] \<Longrightarrow> last us \<noteq> [] \<Longrightarrow> last (join sep us) = last (last us)"
proof (induction sep us rule: join.induct)
  case (3 sep x y ys)
  then have "join sep (y # ys) \<noteq> []"
    using join_ne [of "y # ys" sep] by simp
  then show ?case using 3 by simp
qed simp_all

lemma valid_units_clean:
  "\<forall>s \<in> set ss. 46 \<notin> set s \<Longrightarrow> u \<in> set (valid_sentences L ss) \<Longrightarrow> clean_unit u"
proof (induction ss)
  case Nil
  then show ?case by simp
next
  case (Cons s ss)
  let ?u = "strip (collapse_spaces (filter allowed_char (strip s)))"
  have "46 \<notin> set (strip s)"
    using Cons.prems(1) set_strip [of s] by auto
  then have made: "?u \<noteq> [] \<Longrightarrow> clean_unit ?u"
    by (rule clean_unit_made)
  have "u \<in> set (valid_sentences L ss) \<or> (?u \<noteq> [] \<and> u = ?u)"
    using Cons.prems(2) by (auto simp: Let_def split: if_splits)
  then show ?case
    using Cons made by auto
qed

lemma valid_sentences_fixed:
  "\<forall>s \<in> set ss. clean_unit (strip s) \<and> is_english_or_hindi_sentence L (strip s) \<Longrightarrow>
   valid_sentences L ss = map strip ss"
proof (induction ss)
  case Nil
  then show ?case by simp
next
  case (Cons s ss)
  have u: "clean_unit (strip s)" and acc: "is_english_or_hindi_sentence L (strip s)"
    using Cons.prems by simp_all
  have "strip s \<noteq> []"
    using u by (simp add: clean_unit_def)
  then show ?case
    using Cons acc clean_unit_fixed(1,2,3) [OF u] by (simp add: Let_def)
qed

lemma clean_empty: "remove_unwanted_headers L [] = [] \<Longrightarrow> clean_and_keep_only_english L [] n = []"
proof -
  have "strip [] = []" by (simp add: strip_def)
  moreover assume "remove_unwanted_headers L [] = []"
  ultimately show ?thesis
    by (simp add: clean_and_keep_only_english_def split_into_sentences_def split_str_Nil Let_def)
qed

text \<open>
  Claim C6, amended: filtering a filtered text returns it unchanged whenever that text
  survives the boilerplate step (\<open>remove_unwanted_headers\<close> leaves it as it is) and the
  language detector accepts every non-blank period-delimited unit of it. Every unit the
  filter emits is already free of disallowed characters, has its whitespace collapsed and
  has no period in it, so with these two conditions the second pass rebuilds the same
  units and joins them to the same text.
\<close>

theorem filter_idempotent_when_stable:
  assumes stable: "remove_unwanted_headers L (clean_and_keep_only_english L t n)
                   = clean_and_keep_only_english L t n"
    and accepted: "\<forall>s \<in> set (split_into_sentences (clean_and_keep_only_english L t n)).
                     strip s \<noteq> [] \<longrightarrow> is_english_or_hindi_sentence L (strip s)"
  shows "clean_and_keep_only_english L (clean_and_keep_only_english L t n) n
         = clean_and_keep_only_english L t n"
proof (cases "clean_and_keep_only_english L t n = []")
  case True
  then show ?thesis
    using stable clean_empty by simp
next
  case False
  let ?F = "clean_and_keep_only_english L t n"
  let ?us = "valid_sentences L (split_into_sentences (remove_unwanted_headers L t))"
  let ?J = "join (py ''. '') ?us"
  have F: "?F = strip ?J" and long: "\<not> int (length (strip ?J)) < n"
    using False by (auto simp: clean_and_keep_only_english_def Let_def split: if_splits)
  have units: "\<And>u. u \<in> set ?us \<Longrightarrow> clean_unit u"
    using valid_units_clean sentences_no_period by blast
  have ne: "?us \<noteq> []"
  proof
    assume "?us = []"
    then have "strip ?J = []" by (simp add: strip_def)
    with F False show False by simp
  qed
  have hd_u: "clean_unit (hd ?us)" and last_u: "clean_unit (last ?us)"
    using units ne by simp_all
  have "?J \<noteq> []"
    using join_ne [OF ne] last_u by (simp add: clean_unit_def)
  moreover have "hd ?J = hd (hd ?us)"
    using join_hd [OF ne] hd_u by (simp add: clean_unit_def)
  moreover have "last ?J = last (last ?us)"
    using join_last [OF ne] last_u by (simp add: clean_unit_def)
  ultimately have "strip ?J = ?J"
    using hd_u last_u by (intro strip_fixed) (simp add: clean_unit_def)
  with F have FJ: "?F = ?J" by simp
  have no_dot: "\<forall>u \<in> set ?us. 46 \<notin> set u"
    using units clean_unit_fixed(5) by blast
  have sents: "split_into_sentences ?J = hd ?us # map ((#) 32) (tl ?us)"
    using split_join_units [OF ne no_dot] .
  have strips: "map strip (hd ?us # map ((#) 32) (tl ?us)) = ?us"
  proof -
    have "strip (hd ?us) = hd ?us"
      using clean_unit_fixed(1) [OF hd_u] .
    moreover have "map strip (map ((#) 32) (tl ?us)) = tl ?us"
    proof -
      have "\<And>u. u \<in> set (tl ?us) \<Longrightarrow> strip (32 # u) = u"
        using units clean_unit_fixed(4) list.set_sel(2) [OF ne] by blast
      then show ?thesis
        by (simp add: map_idI)
    qed
    ultimately show ?thesis
      using ne by simp
  qed
  have all_ok: "\<forall>s \<in> set (hd ?us # map ((#) 32) (tl ?us)).
          clean_unit (strip s) \<and> is_english_or_hindi_sentence L (strip s)"
  proof
    fix s
    assume s: "s \<in> set (hd ?us # map ((#) 32) (tl ?us))"
    then have "strip s \<in> strip ` set (hd ?us # map ((#) 32) (tl ?us))"
      by (rule imageI)
    then have "strip s \<in> set (map strip (hd ?us # map ((#) 32) (tl ?us)))"
      by (simp only: set_map)
    then have "strip s \<in> set ?us"
      by (simp only: strips)
    then have cu: "clean_unit (strip s)"
      using units by blast
    then have "strip s \<noteq> []"
      by (simp add: clean_unit_def)
    moreover have "s \<in> set (split_into_sentences ?F)"
      using s sents FJ by simp
    ultimately have "is_english_or_hindi_sentence L (strip s)"
      using accepted by blast
    with cu show "clean_unit (strip s) \<and> is_english_or_hindi_sentence L (strip s)" ..
  qed
  have "valid_sentences L (hd ?us # map ((#) 32) (tl ?us))
        = map strip (hd ?us # map ((#) 32) (tl ?us))"
    using all_ok by (rule valid_sentences_fixed)
  then have "valid_sentences L (hd ?us # map ((#) 32) (tl ?us)) = ?us"
    by (simp only: strips)
  moreover have stableJ: "remove_unwanted_headers L ?J = ?J"
    using stable by (simp only: FJ)
  ultimately have again: "valid_sentences L (split_into_sentences (remove_unwanted_headers L ?J))
        = ?us"
    by (simp only: sents)
  have "clean_and_keep_only_english L ?J n
        = (if int (length (strip ?J)) < n then [] else strip ?J)"
    unfolding clean_and_keep_only_english_def [of L ?J n] Let_def again ..
  then have "clean_and_keep_only_english L ?J n = ?J"
    using \<open>strip ?J = ?J\<close> long by simp
  then show ?thesis
    by (simp only: FJ)
qed

lemmas filter_eval =
  clean_and_keep_only_english_def remove_unwanted_headers_def split_into_sentences_def
  is_english_or_hindi_sentence_def english_libs_def py_def newline_def
  split_str_def upper_def strip_def is_space_def page_number_line_def is_digit_def
  allowed_char_def Let_def

lemma judgment_headers:
  "remove_unwanted_headers english_libs judgment_text = judgment_text"
  by (simp add: judgment_text_def filter_eval)

lemma judgment_clean:
  "clean_and_keep_only_english english_libs judgment_text 50 = judgment_text"
  by (simp add: judgment_text_def filter_eval)

lemma judgment_sentences: "split_into_sentences judgment_text = [judgment_text]"
  by (simp add: judgment_text_def filter_eval)

lemma judgment_strip: "strip judgment_text = judgment_text"
  by (simp add: judgment_text_def filter_eval)

lemma gazette_first:
  "clean_and_keep_only_english english_libs gazette_text 50
   = py ''Published in the Gazette of India by the Government of the State''"
  by (simp add: gazette_text_def filter_eval)

lemma gazette_second:
  "clean_and_keep_only_english english_libs
     (py ''Published in the Gazette of India by the Government of the State'') 50 = []"
  by (simp add: filter_eval)

text \<open>
  Claim C6, as stated: the language filter is idempotent on every text. It is not. The
  first pass keeps both lines of \<open>gazette_text\<close>, because neither line contains
  \<open>GAZETTE OF INDIA\<close>, and turns the line break into a space; the result is a single
  line that does contain it, so the second pass removes the whole line and returns the
  empty text. (The detector is asked once, in the first pass, about an English sentence.)
\<close>

theorem filter_idempotent_counterexample:
  "clean_and_keep_only_english english_libs gazette_text 50
   = py ''Published in the Gazette of India by the Government of the State''
   \<and> clean_and_keep_only_english english_libs
         (clean_and_keep_only_english english_libs gazette_text 50) 50 = []
   \<and> clean_and_keep_only_english english_libs
         (clean_and_keep_only_english english_libs gazette_text 50) 50
       \<noteq> clean_and_keep_only_english english_libs gazette_text 50"
  unfolding gazette_first gazette_second by (simp add: py_def)

theorem filter_idempotent_when_stable_witness:
  "remove_unwanted_headers english_libs
     (clean_and_keep_only_english english_libs judgment_text 50)
   = clean_and_keep_only_english english_libs judgment_text 50
   \<and> split_into_sentences (clean_and_keep_only_english english_libs judgment_text 50)
       = [judgment_text]
   \<and> is_english_or_hindi_sentence english_libs (strip judgment_text)
   \<and> clean_and_keep_only_english english_libs
         (clean_and_keep_only_english english_libs judgment_text 50) 50
       = judgment_text"
proof -
  have stable: "remove_unwanted_headers english_libs
       (clean_and_keep_only_english english_libs judgment_text 50)
     = clean_and_keep_only_english english_libs judgment_text 50"
    by (simp only: judgment_clean judgment_headers)
  have units: "split_into_sentences (clean_and_keep_only_english english_libs judgment_text 50)
       = [judgment_text]"
    by (simp only: judgment_clean judgment_sentences)
  have ok: "is_english_or_hindi_sentence english_libs (strip judgment_text)"
    by (simp add: is_english_or_hindi_sentence_def english_libs_def)
  have accepted: "\<forall>s \<in> set (split_into_sentences
                    (clean_and_keep_only_english english_libs judgment_text 50)).
          strip s \<noteq> [] \<longrightarrow> is_english_or_hindi_sentence english_libs (strip s)"
    using ok by (simp add: units)
  show ?thesis
    using stable units ok filter_idempotent_when_stable [OF stable accepted]
    by (simp only: judgment_clean simp_thms)
qed

lemma set_join: "set (join sep xs) \<subseteq> set sep \<union> \<Union> (set ` set xs)"
  by (induction sep xs rule: join.induct) auto

lemma set_cleaned_lines: "set (cleaned_lines L ls) \<subseteq> set ls"
  by (induction ls) (auto simp: Let_def)

lemma blank_sentences:
  "\<forall>s \<in> set ss. strip s = [] \<Longrightarrow> valid_sentences L ss = []"
  by (induction ss) simp_all

text \<open>A text of whitespace only is filtered to the empty text.\<close>

lemma blank_clean:
  assumes "strip t = []"
  shows "clean_and_keep_only_english L t n = []"
proof -
  have t: "\<forall>c \<in> set t. is_space c"
    using assms by (simp add: strip_Nil_iff)
  let ?t1 = "remove_unwanted_headers L t"
  have "set ?t1 \<subseteq> set newline \<union> \<Union> (set ` set (split_str newline t))"
    using set_join [of newline "cleaned_lines L (split_str newline t)"]
      set_cleaned_lines [of L "split_str newline t"]
    by (auto simp: remove_unwanted_headers_def)
  moreover have "\<Union> (set ` set (split_str newline t)) \<subseteq> set t"
    using pieces_subset by fastforce
  moreover have "is_space 10"
    by (simp add: is_space_def)
  ultimately have t1: "\<forall>c \<in> set ?t1. is_space c"
    using t by (auto simp: newline_def)
  have "\<forall>s \<in> set (split_into_sentences ?t1). strip s = []"
  proof
    fix s
    assume "s \<in> set (split_into_sentences ?t1)"
    then have "set s \<subseteq> set ?t1"
      unfolding split_into_sentences_def by (rule pieces_subset)
    then show "strip s = []"
      using t1 by (auto simp: strip_Nil_iff)
  qed
  then have "valid_sentences L (split_into_sentences ?t1) = []"
    by (rule blank_sentences)
  moreover have "strip [] = []"
    by (simp add: strip_def)
  ultimately show ?thesis
    by (simp add: clean_and_keep_only_english_def Let_def)
qed

text \<open>
  Claim C2. When the language filter applied to the native text yields more than 50
  characters, \<open>extract_text_from_pdf\<close> returns exactly that filtered native text, and the
  only extractor it runs is the native one: OCR is not invoked.
\<close>

theorem native_short_circuit:
  assumes "50 < length (clean_and_keep_only_english L (extract_pdf_with_pymupdf d) 50)"
  shows "extract_text_from_pdf L d
         = (Inr (Some (clean_and_keep_only_english L (extract_pdf_with_pymupdf d) 50)), [Native])
         \<and> Ocr \<notin> set (snd (extract_text_from_pdf L d))"
proof -
  let ?native = "extract_pdf_with_pymupdf d"
  have cleaned: "clean_and_keep_only_english L ?native 50 \<noteq> []"
    using assms by auto
  then have nonblank: "strip ?native \<noteq> []"
    using blank_clean by blast
  have "is_file d"
  proof (rule ccontr)
    assume "\<not> is_file d"
    then have "?native = []"
      by (simp add: extract_pdf_with_pymupdf_def)
    then have "strip ?native = []"
      by (simp add: strip_def)
    with nonblank show False ..
  qed
  then have "extract_text_from_pdf L d
         = (Inr (Some (clean_and_keep_only_english L ?native 50)), [Native])"
    using cleaned nonblank by (simp add: extract_text_from_pdf_def Let_def)
  then show ?thesis by simp
qed

lemma judgment_native: "extract_pdf_with_pymupdf judgment_pdf = judgment_text"
  by (simp add: extract_pdf_with_pymupdf_def judgment_pdf_def extract_tables_from_page_def
      extract_text_no_tables_def judgment_text_def py_def newline_def strip_def is_space_def)

theorem native_short_circuit_witness:
  "50 < length (clean_and_keep_only_english english_libs
                  (extract_pdf_with_pymupdf judgment_pdf) 50)
   \<and> extract_text_from_pdf english_libs judgment_pdf = (Inr (Some judgment_text), [Native])"
proof -
  have long: "50 < length (clean_and_keep_only_english english_libs
                  (extract_pdf_with_pymupdf judgment_pdf) 50)"
    unfolding judgment_native judgment_clean by (simp add: judgment_text_def py_def)
  show ?thesis
    using long native_short_circuit [OF long]
    by (simp only: judgment_native judgment_clean simp_thms)
qed

section \<open>Processing pass\<close>

lemma field_distinct:
  "ENGLISH_CONTENT_FIELD \<noteq> HINDI_CONTENT_FIELD" "HINDI_CONTENT_FIELD \<noteq> ENGLISH_CONTENT_FIELD"
  "ENGLISH_URL_FIELD \<noteq> HINDI_CONTENT_FIELD" "HINDI_URL_FIELD \<noteq> HINDI_CONTENT_FIELD"
  "ENGLISH_URL_FIELD \<noteq> ENGLISH_CONTENT_FIELD" "HINDI_URL_FIELD \<noteq> ENGLISH_CONTENT_FIELD"
  "ENGLISH_URL_FIELD \<noteq> HINDI_URL_FIELD"
  by (simp_all add: ENGLISH_CONTENT_FIELD_def HINDI_CONTENT_FIELD_def ENGLISH_URL_FIELD_def
      HINDI_URL_FIELD_def py_def)

lemma process_document_hindi_kept:
  assumes "doc HINDI_CONTENT_FIELD = Some h" and "h \<noteq> []"
    and "get_or_empty doc ENGLISH_CONTENT_FIELD = []"
  shows "fst (process_document remote doc) HINDI_CONTENT_FIELD = Some h"
    and "snd (process_document remote doc)
         = (if truthy (doc ENGLISH_URL_FIELD) then [(English, the (doc ENGLISH_URL_FIELD))] else [])"
    and "get_or_empty (fst (process_document remote doc)) HINDI_CONTENT_FIELD = h"
  using assms
  by (simp_all add: process_document_def Let_def get_or_empty_def field_distinct split: prod.splits)

text \<open>
  Claim C9. For a stored document whose Hindi content is a non-empty value \<open>h\<close> and
  whose English content is missing or empty, one pass of either script leaves a document
  stored under the same identifier whose Hindi content is still \<open>h\<close>, and the only
  extraction it performs is the English one: \<open>extract.py\<close> performs it when the document
  has an English URL, \<open>en_hin_extract.py\<close> when it has both URLs, and neither ever
  extracts Hindi.
\<close>

theorem hindi_content_preserved:
  assumes stored: "collection i = Some doc"
    and hindi: "doc HINDI_CONTENT_FIELD = Some h" "h \<noteq> []"
    and english: "doc ENGLISH_CONTENT_FIELD = None \<or> doc ENGLISH_CONTENT_FIELD = Some []"
  shows "(\<exists>doc'. fst (main_step remote collection i) i = Some doc'
                 \<and> doc' HINDI_CONTENT_FIELD = Some h)
         \<and> snd (main_step remote collection i)
             = (if truthy (doc ENGLISH_URL_FIELD)
                then [(English, the (doc ENGLISH_URL_FIELD))] else [])
         \<and> (\<exists>doc'. fst (main_step_en_hin remote collection i) i = Some doc'
                   \<and> doc' HINDI_CONTENT_FIELD = Some h)
         \<and> snd (main_step_en_hin remote collection i)
             = (if truthy (doc ENGLISH_URL_FIELD) \<and> truthy (doc HINDI_URL_FIELD)
                then [(English, the (doc ENGLISH_URL_FIELD))] else [])"
proof -
  have e: "get_or_empty doc ENGLISH_CONTENT_FIELD = []" "\<not> truthy (doc ENGLISH_CONTENT_FIELD)"
    using english by (auto simp: get_or_empty_def truthy_def)
  have hh: "get_or_empty doc HINDI_CONTENT_FIELD = h" "truthy (doc HINDI_CONTENT_FIELD)"
    using hindi by (simp_all add: get_or_empty_def truthy_def)
  obtain d l where pd: "process_document remote doc = (d, l)"
    by (cases "process_document remote doc")
  have d: "d HINDI_CONTENT_FIELD = Some h" "get_or_empty d HINDI_CONTENT_FIELD = h"
    and l: "l = (if truthy (doc ENGLISH_URL_FIELD)
                 then [(English, the (doc ENGLISH_URL_FIELD))] else [])"
    using process_document_hindi_kept [OF hindi e(1), of remote] pd by simp_all
  have 1: "(\<exists>doc'. fst (main_step remote collection i) i = Some doc'
                 \<and> doc' HINDI_CONTENT_FIELD = Some h)
         \<and> snd (main_step remote collection i)
             = (if truthy (doc ENGLISH_URL_FIELD)
                then [(English, the (doc ENGLISH_URL_FIELD))] else [])"
    using stored e hh hindi pd d l
    by (simp add: main_step_def Let_def map_add_def field_distinct)
  obtain d2 l2 where pd2: "process_document_en_hin remote doc = (d2, l2)"
    by (cases "process_document_en_hin remote doc")
  have d2: "d2 HINDI_CONTENT_FIELD = Some h"
    and l2: "l2 = (if truthy (doc ENGLISH_URL_FIELD) \<and> truthy (doc HINDI_URL_FIELD)
                   then [(English, the (doc ENGLISH_URL_FIELD))] else [])"
    using pd2 e hh hindi
    by (auto simp: process_document_en_hin_def Let_def field_distinct split: if_splits)
  have 2: "(\<exists>doc'. fst (main_step_en_hin remote collection i) i = Some doc'
                   \<and> doc' HINDI_CONTENT_FIELD = Some h)
         \<and> snd (main_step_en_hin remote collection i)
             = (if truthy (doc ENGLISH_URL_FIELD) \<and> truthy (doc HINDI_URL_FIELD)
                then [(English, the (doc ENGLISH_URL_FIELD))] else [])"
    using stored e hh hindi pd2 d2 l2
    by (simp add: main_step_en_hin_def Let_def map_add_def field_distinct)
  show ?thesis
    using 1 2 by blast
qed

theorem hindi_content_preserved_witness:
  "sample_collection 0 = Some hindi_only_doc
   \<and> hindi_only_doc HINDI_CONTENT_FIELD = Some (py ''hindi text'')
   \<and> hindi_only_doc ENGLISH_CONTENT_FIELD = None
   \<and> the (fst (main_step sample_remote sample_collection 0) 0) HINDI_CONTENT_FIELD
       = Some (py ''hindi text'')
   \<and> snd (main_step sample_remote sample_collection 0) = [(English, py ''https://host/e.pdf'')]
   \<and> the (fst (main_step_en_hin sample_remote sample_collection 0) 0) HINDI_CONTENT_FIELD
       = Some (py ''hindi text'')
   \<and> snd (main_step_en_hin sample_remote sample_collection 0)
       = [(English, py ''https://host/e.pdf'')]"
proof -
  have stored: "sample_collection 0 = Some hindi_only_doc"
    by (simp add: sample_collection_def)
  have hindi: "hindi_only_doc HINDI_CONTENT_FIELD = Some (py ''hindi text'')"
    by (simp add: hindi_only_doc_def)
  have nonempty: "py ''hindi text'' \<noteq> []"
    by (simp add: py_def)
  have english: "hindi_only_doc ENGLISH_CONTENT_FIELD = None"
    by (simp add: hindi_only_doc_def ENGLISH_CONTENT_FIELD_def HINDI_CONTENT_FIELD_def
        ENGLISH_URL_FIELD_def HINDI_URL_FIELD_def py_def)
  have urls: "hindi_only_doc ENGLISH_URL_FIELD = Some (py ''https://host/e.pdf'')"
    "truthy (hindi_only_doc ENGLISH_URL_FIELD)" "truthy (hindi_only_doc HINDI_URL_FIELD)"
    by (simp_all add: hindi_only_doc_def truthy_def ENGLISH_CONTENT_FIELD_def
        HINDI_CONTENT_FIELD_def ENGLISH_URL_FIELD_def HINDI_URL_FIELD_def py_def)
  have english_missing: "hindi_only_doc ENGLISH_CONTENT_FIELD = None
      \<or> hindi_only_doc ENGLISH_CONTENT_FIELD = Some []"
    using english by simp
  show ?thesis
    using stored hindi english urls
      hindi_content_preserved [where collection = sample_collection and i = "0::nat"
        and doc = hindi_only_doc and h = "py ''hindi text''" and remote = sample_remote,
        OF stored hindi nonempty english_missing]
    by auto
qed

section \<open>Train/dev split\<close>

lemma slice_append: "slice_to xs k @ slice_from xs k = xs"
  by (simp add: slice_to_def slice_from_def)

lemma permutation_length:
  assumes "distinct perm" and "set perm = {0..<n}"
  shows "length perm = n"
  using assms distinct_card [of perm] by simp

lemma split_written:
  "\<forall>u \<in> set us. 10 \<notin> set u \<Longrightarrow> split_str newline (written us) = us @ [[]]"
proof (induction us)
  case Nil
  then show ?case by (simp add: written_def split_str_Nil)
next
  case (Cons u us)
  have "split_str [10] (u @ 10 # written us) = u # split_str [10] (written us)"
    using Cons.prems by (intro split_single_first) simp
  then show ?case
    using Cons by (simp add: written_def newline_def)
qed

lemma file_lines_written:
  "\<forall>u \<in> set us. 10 \<notin> set u \<Longrightarrow> file_lines (written us) = us"
  by (simp add: file_lines_def split_written)

lemma py_round_near:
  "py_round y = \<lfloor>y\<rfloor> \<or> py_round y = \<lfloor>y\<rfloor> + 1"
  by (simp add: py_round_def Let_def)

lemma dev_size_near:
  assumes "0 \<le> r" and "r \<le> 1"
  shows "\<bar>int (length (slice_from xs (split_idx (length xs) r)))
          - py_round (of_nat (length xs) * r)\<bar> \<le> 1"
proof -
  let ?n = "length xs"
  let ?x = "of_nat ?n * (1 - r) :: rat"
  let ?y = "of_nat ?n * r :: rat"
  let ?k = "\<lfloor>?x\<rfloor>"
  have x0: "0 \<le> ?x"
    using assms by simp
  then have k: "split_idx ?n r = ?k"
    by (simp add: split_idx_def py_int_def)
  have k0: "0 \<le> ?k"
    using x0 by simp
  have "?x \<le> of_nat ?n"
    using assms by (simp add: mult_left_le)
  then have kn: "?k \<le> int ?n"
    by (simp add: floor_le_iff)
  have len: "int (length (slice_from xs ?k)) = int ?n - ?k"
    using k0 kn by (simp add: slice_from_def)
  have xy: "?x = of_nat ?n - ?y"
    by (simp add: algebra_simps)
  define nq kq fq where "nq = (of_nat ?n :: rat)" and "kq = (of_int ?k :: rat)"
    and "fq = (of_int \<lfloor>?y\<rfloor> :: rat)"
  have "kq \<le> ?x \<and> ?x < kq + 1"
    unfolding kq_def using floor_correct [of ?x] by simp
  moreover have "fq \<le> ?y \<and> ?y < fq + 1"
    unfolding fq_def using floor_correct [of ?y] by simp
  moreover have "?x = nq - ?y"
    unfolding nq_def by (rule xy)
  ultimately have "fq \<le> nq - kq" and "nq - kq < fq + 2"
    by linarith+
  moreover have "nq - kq = of_int (int ?n - ?k)"
    by (simp add: nq_def kq_def)
  moreover have "fq + 2 = of_int (\<lfloor>?y\<rfloor> + 2)"
    by (simp add: fq_def)
  ultimately have "(of_int \<lfloor>?y\<rfloor> :: rat) \<le> of_int (int ?n - ?k)"
    and "(of_int (int ?n - ?k) :: rat) < of_int (\<lfloor>?y\<rfloor> + 2)"
    by (simp_all only: fq_def)
  then have "\<lfloor>?y\<rfloor> \<le> int ?n - ?k" and "int ?n - ?k < \<lfloor>?y\<rfloor> + 2"
    by (simp_all only: of_int_le_iff of_int_less_iff)
  then show ?thesis
    using py_round_near [of ?y] len k by auto
qed

lemmas split_eval =
  train_eng_def train_hin_def dev_eng_def dev_hin_def train_data_def dev_data_def shuffled_def
  slice_to_def slice_from_def written_def file_lines_def split_str_def newline_def py_def

lemma split_idx_3: "split_idx 3 (1 / 10) = 2"
proof -
  have "\<lfloor>27 / 10 :: rat\<rfloor> = 2"
    by (rule floor_unique) simp_all
  then show ?thesis
    by (simp add: split_idx_def py_int_def)
qed

lemma py_round_3: "py_round (3 * (1 / 10)) = 0"
proof -
  have "\<lfloor>3 / 10 :: rat\<rfloor> = 0"
    by (rule floor_unique) simp_all
  then show ?thesis
    by (simp add: py_round_def Let_def)
qed

text \<open>
  Claim C8, as stated: line \<open>i\<close> of the source-language file and line \<open>i\<close> of the
  target-language file always come from the same record. They do not when a unit holds a
  line break: the units are written as they are, so with the dev ratio 0.1 (split index 2)
  the first record of \<open>broken_pairs\<close> takes two lines of the English train file and one of
  the Hindi train file, and line 1 is \<open>b\<close>, from the first record, in one file and \<open>y\<close>,
  from the second, in the other.
\<close>

theorem train_dev_pairing_counterexample:
  "split_idx (length broken_pairs) (1 / 10) = 2
   \<and> file_lines (train_eng broken_pairs [0, 1, 2] 2) = [py ''a'', py ''b'', py ''c'']
   \<and> file_lines (train_hin broken_pairs [0, 1, 2] 2) = [py ''x'', py ''y'']
   \<and> \<not> paired_lines (train_data broken_pairs [0, 1, 2] 2)
           (train_eng broken_pairs [0, 1, 2] 2) (train_hin broken_pairs [0, 1, 2] 2)"
proof -
  have "length broken_pairs = 3"
    by (simp add: broken_pairs_def)
  then have "split_idx (length broken_pairs) (1 / 10) = 2"
    by (simp only: split_idx_3)
  moreover have
    "file_lines (train_eng broken_pairs [0, 1, 2] 2) = [py ''a'', py ''b'', py ''c'']
     \<and> file_lines (train_hin broken_pairs [0, 1, 2] 2) = [py ''x'', py ''y'']
     \<and> \<not> paired_lines (train_data broken_pairs [0, 1, 2] 2)
           (train_eng broken_pairs [0, 1, 2] 2) (train_hin broken_pairs [0, 1, 2] 2)"
    by (simp add: paired_lines_def broken_pairs_def split_eval)
  ultimately show ?thesis by blast
qed

text \<open>
  Claim C8, amended: for every list of \<open>N\<close> records, every shuffle of it and every value
  of the split index, the train and dev parts together are the shuffled list, so their
  lengths add up to \<open>N\<close>; for a dev ratio \<open>r\<close> between 0 and 1, with the split index the
  integer part of \<open>N * (1 - r)\<close>, the length of the dev part differs from \<open>round(N * r)\<close>
  by at most one; and when no unit of any record holds a line break, line \<open>i\<close> of the
  source-language file and line \<open>i\<close> of the target-language file are the two units of the
  \<open>i\<close>-th record of the part, for the train files and for the dev files.
\<close>

theorem train_dev_split:
  assumes "distinct perm" and "set perm = {0..<length data}"
  shows "length (train_data data perm k) + length (dev_data data perm k) = length data
         \<and> train_data data perm k @ dev_data data perm k = map (\<lambda>i. data ! i) perm
         \<and> (0 \<le> r \<and> r \<le> 1 \<and> k = split_idx (length data) r \<longrightarrow>
              \<bar>int (length (dev_data data perm k)) - py_round (of_nat (length data) * r)\<bar> \<le> 1)
         \<and> ((\<forall>item \<in> set data. 10 \<notin> set (english item) \<and> 10 \<notin> set (hindi item)) \<longrightarrow>
              paired_lines (train_data data perm k) (train_eng data perm k) (train_hin data perm k)
              \<and> paired_lines (dev_data data perm k) (dev_eng data perm k) (dev_hin data perm k))"
proof -
  let ?s = "shuffled data perm"
  have len: "length ?s = length data"
    using permutation_length [OF assms] by (simp add: shuffled_def)
  have parts: "train_data data perm k @ dev_data data perm k = ?s"
    by (simp add: train_data_def dev_data_def slice_append)
  then have "length (train_data data perm k) + length (dev_data data perm k) = length ?s"
    by (metis length_append)
  then have sizes: "length (train_data data perm k) + length (dev_data data perm k) = length data"
    using len by simp
  have near: "0 \<le> r \<and> r \<le> 1 \<and> k = split_idx (length data) r \<longrightarrow>
      \<bar>int (length (dev_data data perm k)) - py_round (of_nat (length data) * r)\<bar> \<le> 1"
    using dev_size_near [of r ?s] len by (simp add: dev_data_def)
  have pairs: "paired_lines (train_data data perm k) (train_eng data perm k) (train_hin data perm k)
      \<and> paired_lines (dev_data data perm k) (dev_eng data perm k) (dev_hin data perm k)"
    if plain: "\<forall>item \<in> set data. 10 \<notin> set (english item) \<and> 10 \<notin> set (hindi item)"
  proof -
    have "set ?s \<subseteq> set data"
      using assms(2) by (auto simp: shuffled_def)
    moreover have "set (train_data data perm k) \<subseteq> set ?s" "set (dev_data data perm k) \<subseteq> set ?s"
      using parts by (metis set_append Un_upper1, metis set_append Un_upper2)
    ultimately have "\<forall>item \<in> set (train_data data perm k).
                       10 \<notin> set (english item) \<and> 10 \<notin> set (hindi item)"
      and "\<forall>item \<in> set (dev_data data perm k).
                       10 \<notin> set (english item) \<and> 10 \<notin> set (hindi item)"
      using plain by blast+
    then show ?thesis
      by (simp add: paired_lines_def train_eng_def train_hin_def dev_eng_def dev_hin_def
          file_lines_written)
  qed
  show ?thesis
    using sizes parts near pairs by (simp add: shuffled_def)
qed

theorem train_dev_split_witness:
  "distinct [2, 0, 1 :: nat] \<and> set [2, 0, 1] = {0..<length plain_pairs}
   \<and> split_idx (length plain_pairs) (1 / 10) = 2
   \<and> length (train_data plain_pairs [2, 0, 1] 2) = 2
   \<and> length (dev_data plain_pairs [2, 0, 1] 2) = 1
   \<and> py_round (of_nat (length plain_pairs) * (1 / 10)) = 0
   \<and> file_lines (train_eng plain_pairs [2, 0, 1] 2) = [py ''d'', py ''a'']
   \<and> file_lines (train_hin plain_pairs [2, 0, 1] 2) = [py ''z'', py ''x'']
   \<and> file_lines (dev_eng plain_pairs [2, 0, 1] 2) = [py ''c'']
   \<and> file_lines (dev_hin plain_pairs [2, 0, 1] 2) = [py ''y'']"
proof -
  have d: "distinct [2, 0, 1 :: nat]" by simp
  have s: "set [2, 0, 1] = {0..<length plain_pairs}"
    by (auto simp: plain_pairs_def)
  have plain: "\<forall>item \<in> set plain_pairs. 10 \<notin> set (english item) \<and> 10 \<notin> set (hindi item)"
    by (simp add: plain_pairs_def py_def)
  have n: "length plain_pairs = 3"
    by (simp add: plain_pairs_def)
  have k: "split_idx (length plain_pairs) (1 / 10) = 2"
    by (simp only: n split_idx_3)
  have r: "(0::rat) \<le> 1 / 10 \<and> (1 / 10 :: rat) \<le> 1 \<and> 2 = split_idx (length plain_pairs) (1 / 10)"
    using k by simp
  have train: "train_data plain_pairs [2, 0, 1] 2
               = [\<lparr>english = py ''d'', hindi = py ''z''\<rparr>, \<lparr>english = py ''a'', hindi = py ''x''\<rparr>]"
    and dev: "dev_data plain_pairs [2, 0, 1] 2 = [\<lparr>english = py ''c'', hindi = py ''y''\<rparr>]"
    by (simp_all add: plain_pairs_def split_eval)
  have rnd: "py_round (of_nat (length plain_pairs) * (1 / 10)) = 0"
    using py_round_3 by (simp add: n)
  note split = train_dev_split [OF d s, of 2 "1 / 10"]
  have "\<bar>int (length (dev_data plain_pairs [2, 0, 1] 2))
         - py_round (of_nat (length plain_pairs) * (1 / 10))\<bar> \<le> 1"
    using split r by blast
  have "paired_lines (train_data plain_pairs [2, 0, 1] 2)
          (train_eng plain_pairs [2, 0, 1] 2) (train_hin plain_pairs [2, 0, 1] 2)
        \<and> paired_lines (dev_data plain_pairs [2, 0, 1] 2)
          (dev_eng plain_pairs [2, 0, 1] 2) (dev_hin plain_pairs [2, 0, 1] 2)"
    using split plain by blast
  then have lines:
    "file_lines (train_eng plain_pairs [2, 0, 1] 2) = [py ''d'', py ''a'']"
    "file_lines (train_hin plain_pairs [2, 0, 1] 2) = [py ''z'', py ''x'']"
    "file_lines (dev_eng plain_pairs [2, 0, 1] 2) = [py ''c'']"
    "file_lines (dev_hin plain_pairs [2, 0, 1] 2) = [py ''y'']"
    unfolding paired_lines_def train dev by simp_all
  have sizes: "length (train_data plain_pairs [2, 0, 1] 2) = 2"
    "length (dev_data plain_pairs [2, 0, 1] 2) = 1"
    unfolding train dev by simp_all
  show ?thesis
    using d s k rnd lines sizes by blast
qed

end
